theory Spec2Isabelle
  imports Complex_Main "HOL-Library.Word"
begin

section \<open>Machine model\<close>

text \<open>
  The utilities of \<^verbatim>\<open>utils.c\<close> work on caller-supplied byte buffers. A buffer is the
  list of its bytes; the pointer a function receives is the start of that list and the
  length of the list is the number of bytes the caller really owns. Every read and
  write is bounds-checked in the model: an access outside the list is undefined
  behaviour in C and is the error value \<open>OutOfBounds k\<close> here, \<open>k\<close> the offending
  index. A conversion from \<^verbatim>\<open>float\<close> to \<^verbatim>\<open>int16_t\<close> whose truncated value does not fit
  is undefined behaviour as well and is the error \<open>CastOverflow\<close>; moving a pointer
  below the start of its array is \<open>PointerUnderflow\<close>.

  \<^verbatim>\<open>uint8_t\<close>, \<^verbatim>\<open>uint16_t\<close> and \<^verbatim>\<open>uint32_t\<close> are words; \<^verbatim>\<open>int32_t\<close> is a 32-bit word read
  in two's complement (\<open>sint\<close>), its negation wrapping modulo \<open>2 ^ 32\<close>.
\<close>

type_synonym u8 = "8 word"
type_synonym u16 = "16 word"
type_synonym u32 = "32 word"
type_synonym i32 = "32 word"

datatype error = OutOfBounds nat | PointerUnderflow | CastOverflow

definition rd :: "u8 list \<Rightarrow> nat \<Rightarrow> error + u8" where
  "rd s k = (if k < length s then Inr (s ! k) else Inl (OutOfBounds k))"

definition wr :: "u8 list \<Rightarrow> nat \<Rightarrow> u8 \<Rightarrow> error + u8 list" where
  "wr s k c = (if k < length s then Inr (s[k := c]) else Inl (OutOfBounds k))"

definition bindE :: "error + 'a \<Rightarrow> ('a \<Rightarrow> error + 'b) \<Rightarrow> error + 'b" where
  "bindE m f = (case m of Inl e \<Rightarrow> Inl e | Inr x \<Rightarrow> f x)"

text \<open>ASCII text as bytes, for stating what a buffer holds.\<close>

definition bytes_of :: "string \<Rightarrow> u8 list" where
  "bytes_of cs = map of_char cs"

section \<open>\<^verbatim>\<open>utils_reverse\<close>\<close>

text \<open>
  \<^verbatim>\<open>
  void utils_reverse( uint8_t* s, uint32_t s_len )
  {
      j = ( s_len - 1 );
      for ( i = 0;  i < j; i++ )
      {
          c    = s[i];
          s[i] = s[j];
          s[j] = c;
          j--;
      }
  }
  \<close>
  One round of the loop reads \<open>s[i]\<close>, reads \<open>s[j]\<close>, writes \<open>s[i]\<close> and writes \<open>s[j]\<close>, in
  this order; \<open>i\<close> and \<open>j\<close> are \<^verbatim>\<open>uint32_t\<close>, so \<open>s_len - 1\<close> wraps at \<open>s_len = 0\<close>.
\<close>

function reverse_loop :: "u8 list \<Rightarrow> u32 \<Rightarrow> u32 \<Rightarrow> error + u8 list" where
  "reverse_loop s i j =
     (if i < j then
        bindE (rd s (unat i)) (\<lambda>c.
        bindE (rd s (unat j)) (\<lambda>d.
        bindE (wr s (unat i) d) (\<lambda>s1.
        bindE (wr s1 (unat j) c) (\<lambda>s2.
        reverse_loop s2 (i + 1) (j - 1)))))
      else Inr s)"
  by pat_completeness auto
termination
proof (relation "measure (\<lambda>(s, i, j). unat j - unat i)")
  show "wf (measure (\<lambda>(s, i, j). unat j - unat i))"
    by simp
next
  fix s :: "u8 list" and i j :: u32 and c d :: u8 and s1 s2 :: "u8 list"
  assume lt: "i < j"
  have ij: "unat i < unat j"
    using lt by (simp add: word_less_nat_alt)
  have "unat j < 2 ^ 32"
    using unsigned_less [of j] by simp
  then have i1: "unat (i + 1) = unat i + 1"
    using ij by (simp add: unat_word_ariths)
  have "1 \<le> j"
    using ij by (simp add: word_le_nat_alt)
  then have j1: "unat (j - 1) = unat j - 1"
    by (simp add: unat_sub)
  show "((s2, i + 1, j - 1), (s, i, j)) \<in> measure (\<lambda>(s, i, j). unat j - unat i)"
    using ij i1 j1 by simp
qed

definition utils_reverse :: "u8 list \<Rightarrow> u32 \<Rightarrow> error + u8 list" where
  "utils_reverse s s_len = reverse_loop s 0 (s_len - 1)"

section \<open>\<^verbatim>\<open>utils_itoa\<close>\<close>

text \<open>
  \<^verbatim>\<open>
  i = 0;
  do
  {
      s[i] = ((uint8_t)( nr % 10 )) + '0';
      i++;
      nr /= 10;
  }
  while (( nr > 0 ) && ( i < s_max ));
  \<close>
  The loop returns the buffer together with the final \<open>i\<close> and \<open>nr\<close>.
\<close>

function itoa_loop :: "u8 list \<Rightarrow> u32 \<Rightarrow> u32 \<Rightarrow> u32 \<Rightarrow> error + (u8 list \<times> u32 \<times> u32)" where
  "itoa_loop s s_max i nr =
     bindE (wr s (unat i) (ucast (nr mod 10) + 0x30)) (\<lambda>s1.
       if 0 < nr div 10 \<and> i + 1 < s_max
       then itoa_loop s1 s_max (i + 1) (nr div 10)
       else Inr (s1, i + 1, nr div 10))"
  by pat_completeness auto
termination
proof (relation "measure (\<lambda>(s, s_max, i, nr). unat nr)")
  show "wf (measure (\<lambda>(s, s_max, i, nr). unat nr))"
    by simp
next
  fix s s1 :: "u8 list" and s_max i nr :: u32
  assume "0 < nr div 10 \<and> i + 1 < s_max"
  then have "0 < unat (nr div 10)"
    by (simp add: word_less_nat_alt)
  then have "unat (nr div 10) < unat nr"
    by (simp add: unat_div)
  then show "((s1, s_max, i + 1, nr div 10), (s, s_max, i, nr))
      \<in> measure (\<lambda>(s, s_max, i, nr). unat nr)"
    by simp
qed

text \<open>
  \<^verbatim>\<open>
  uint32_t utils_itoa( int32_t n, uint8_t* s, uint32_t s_max )
  {
      if ( n < 0) { is_minus = TRUE;  nr = (uint32_t)(-n); }
      else        { is_minus = FALSE; nr = (uint32_t)n;    }
      ... the loop ...
      if ( 0 == nr )
      {
          if ( FALSE != is_minus ) { s[i] = '-'; i++; }
          s[i] = '\0';
          utils_reverse( s, i );
      }
      return i;
  }
  \<close>
  The result is the buffer after the call and the returned count.
\<close>

definition itoa_is_minus :: "i32 \<Rightarrow> bool" where
  "itoa_is_minus n = (sint n < 0)"

definition itoa_nr :: "i32 \<Rightarrow> u32" where
  "itoa_nr n = (if sint n < 0 then - n else n)"

text \<open>
  The spec words the same step as a widening to unsigned before the negation:
  \<open>n\<close> is first read as an unsigned 32-bit value, \<open>uint n\<close>, and this value is negated in
  unsigned arithmetic, \<open>2 ^ 32 - uint n\<close> modulo \<open>2 ^ 32\<close>. The source writes
  \<^verbatim>\<open>(uint32_t)(-n)\<close>, negation of the signed value first; \<open>itoa_nr\<close> above is the source,
  this definition is the spec, and the two are compared below.
\<close>

definition itoa_nr_widen_first :: "i32 \<Rightarrow> u32" where
  "itoa_nr_widen_first n =
     (if sint n < 0 then word_of_int (2 ^ 32 - uint n) else word_of_int (uint n))"

definition itoa_finish :: "bool \<Rightarrow> u8 list \<Rightarrow> u32 \<Rightarrow> error + (u8 list \<times> u32)" where
  "itoa_finish is_minus s i =
     bindE (if is_minus then bindE (wr s (unat i) 0x2D) (\<lambda>s1. Inr (s1, i + 1))
            else Inr (s, i)) (\<lambda>(s2, i2).
     bindE (wr s2 (unat i2) 0) (\<lambda>s3.
     bindE (utils_reverse s3 i2) (\<lambda>s4. Inr (s4, i2))))"

definition utils_itoa :: "i32 \<Rightarrow> u8 list \<Rightarrow> u32 \<Rightarrow> error + (u8 list \<times> u32)" where
  "utils_itoa n s s_max =
     bindE (itoa_loop s s_max 0 (itoa_nr n)) (\<lambda>(s1, i, nr).
       if nr = 0 then itoa_finish (itoa_is_minus n) s1 i else Inr (s1, i))"

text \<open>
  The two ways out of the digit loop, as the test \<^verbatim>\<open>if ( 0 == nr )\<close> sees them: the value
  was consumed, or the loop stopped on \<^verbatim>\<open>i < s_max\<close> with digits left.
\<close>

definition itoa_truncated :: "i32 \<Rightarrow> u8 list \<Rightarrow> u32 \<Rightarrow> bool" where
  "itoa_truncated n s s_max =
     (case itoa_loop s s_max 0 (itoa_nr n) of Inl e \<Rightarrow> False | Inr (s1, i, nr) \<Rightarrow> nr \<noteq> 0)"

subsection \<open>The standard decimal representation\<close>

text \<open>
  What the integer formatter is compared with: the decimal digits of a natural number,
  most significant first and without leading zeros, and the representation of an integer
  with its sign. \<open>dec_value\<close> reads a digit string back.
\<close>

definition digit_char :: "nat \<Rightarrow> char" where
  "digit_char d = ''0123456789'' ! d"

fun dec_digits :: "nat \<Rightarrow> string" where
  "dec_digits n =
     (if n < 10 then [digit_char n] else dec_digits (n div 10) @ [digit_char (n mod 10)])"

definition decimal :: "int \<Rightarrow> string" where
  "decimal n = (if n < 0 then CHR ''-'' # dec_digits (nat (- n)) else dec_digits (nat n))"

definition digit_val :: "char \<Rightarrow> nat" where
  "digit_val c = of_char c - 48"

definition dec_value :: "string \<Rightarrow> nat" where
  "dec_value cs = foldl (\<lambda>a c. 10 * a + digit_val c) 0 cs"

text \<open>
  The number of rounds of the digit loop started at index \<open>i\<close> on the value \<open>n\<close>: one
  round always runs, and a further one needs a digit left and \<open>i < s_max\<close>.
\<close>

definition itoa_steps :: "nat \<Rightarrow> nat \<Rightarrow> nat \<Rightarrow> nat" where
  "itoa_steps n i smax = min (length (dec_digits n)) (max 1 (smax - i))"

section \<open>\<^verbatim>\<open>utils_float_to_char\<close>\<close>

subsection \<open>Single-precision arithmetic\<close>

text \<open>
  A \<^verbatim>\<open>float\<close> is IEEE binary32. The model works on the finite values, each given by the
  real number it stands for; the two zeros are one value (the code cannot tell them
  apart: \<open>-0.0 < 0\<close> is false and \<open>-0.0\<close> converts to the integer 0). NaN and the
  infinities are not values of the model: on them the first conversion to \<^verbatim>\<open>int16_t\<close> is
  already undefined.

  \<open>f32_round\<close> rounds a real number to the nearest binary32 value, ties to the even
  mantissa: the spacing of the binary32 values around \<open>x\<close> is \<open>2 ^ (e - 23)\<close> for
  \<open>2 ^ e \<le> \<bar>x\<bar> < 2 ^ (e + 1)\<close>, and \<open>2 ^ (- 149)\<close> below \<open>2 ^ (- 126)\<close>. Overflow to
  infinity is not modelled; such a product fails the following conversion all the same.
  A \<^verbatim>\<open>float\<close> product is the rounded exact product.
\<close>

definition pow2 :: "int \<Rightarrow> real" where
  "pow2 e = (if 0 \<le> e then 2 ^ nat e else 1 / 2 ^ nat (- e))"

function ilog2_up :: "real \<Rightarrow> int" where
  "ilog2_up x = (if 2 \<le> x then ilog2_up (x / 2) + 1 else 0)"
  by pat_completeness auto
termination
proof (relation "measure (\<lambda>x. nat \<lfloor>x\<rfloor>)")
  show "wf (measure (\<lambda>x :: real. nat \<lfloor>x\<rfloor>))"
    by simp
next
  fix x :: real
  assume x: "2 \<le> x"
  have "x / 2 \<le> x - 1"
    using x by simp
  then have "\<lfloor>x / 2\<rfloor> \<le> \<lfloor>x - 1\<rfloor>"
    by (rule floor_mono)
  then have "\<lfloor>x / 2\<rfloor> < \<lfloor>x\<rfloor>"
    by simp
  moreover have "0 < \<lfloor>x\<rfloor>"
    using x by simp
  ultimately show "(x / 2, x) \<in> measure (\<lambda>x. nat \<lfloor>x\<rfloor>)"
    by simp
qed

function ilog2_down :: "real \<Rightarrow> int" where
  "ilog2_down x = (if 0 < x \<and> x < 1 then ilog2_down (x * 2) - 1 else 0)"
  by pat_completeness auto
termination
proof (relation "measure (\<lambda>x. nat \<lfloor>1 / x\<rfloor>)")
  show "wf (measure (\<lambda>x :: real. nat \<lfloor>1 / x\<rfloor>))"
    by simp
next
  fix x :: real
  assume x: "0 < x \<and> x < 1"
  define y where "y = 1 / x"
  have y: "1 < y"
    using x by (simp add: y_def)
  have "of_int (\<lfloor>y / 2\<rfloor> + 1) \<le> y"
  proof (cases "2 \<le> y")
    case True
    have "of_int \<lfloor>y / 2\<rfloor> \<le> y / 2"
      by (rule of_int_floor_le)
    then have "of_int \<lfloor>y / 2\<rfloor> + 1 \<le> y"
      using True by linarith
    then show ?thesis
      by simp
  next
    case False
    then have "\<lfloor>y / 2\<rfloor> = 0"
      using y by (simp add: floor_eq_iff)
    then show ?thesis
      using y by simp
  qed
  then have "\<lfloor>y / 2\<rfloor> + 1 \<le> \<lfloor>y\<rfloor>"
    by (simp only: le_floor_iff)
  moreover have "1 / (x * 2) = y / 2"
    unfolding y_def by (simp only: divide_divide_eq_left [symmetric])
  ultimately have "\<lfloor>1 / (x * 2)\<rfloor> + 1 \<le> \<lfloor>1 / x\<rfloor>"
    unfolding y_def by (simp only:)
  then have "\<lfloor>1 / (x * 2)\<rfloor> < \<lfloor>1 / x\<rfloor>"
    by linarith
  moreover have "0 < \<lfloor>1 / x\<rfloor>"
    using y unfolding y_def by linarith
  ultimately have "nat \<lfloor>1 / (x * 2)\<rfloor> < nat \<lfloor>1 / x\<rfloor>"
    by linarith
  then show "(x * 2, x) \<in> measure (\<lambda>x. nat \<lfloor>1 / x\<rfloor>)"
    by (simp only: in_measure)
qed

definition ilog2 :: "real \<Rightarrow> int" where
  "ilog2 x = (if 1 \<le> x then ilog2_up x else ilog2_down x)"

definition round_even :: "real \<Rightarrow> int" where
  "round_even x =
     (let f = \<lfloor>x\<rfloor>; r = x - of_int f
      in if r < 1 / 2 then f else if 1 / 2 < r then f + 1 else if even f then f else f + 1)"

definition f32_round :: "real \<Rightarrow> real" where
  "f32_round x =
     (if x = 0 then 0
      else let q = pow2 (max (ilog2 \<bar>x\<bar>) (- 126) - 23)
           in of_int (round_even (x / q)) * q)"

definition f32_mul :: "real \<Rightarrow> real \<Rightarrow> real" where
  "f32_mul a b = f32_round (a * b)"

text \<open>
  \<^verbatim>\<open>(int16_t) x\<close>: the fractional part is discarded; the conversion is undefined when the
  integral part is not an \<^verbatim>\<open>int16_t\<close>.
\<close>

definition f32_to_i16 :: "real \<Rightarrow> error + int" where
  "f32_to_i16 x =
     (let t = (if x < 0 then - \<lfloor>- x\<rfloor> else \<lfloor>x\<rfloor>)
      in if - 32768 \<le> t \<and> t \<le> 32767 then Inr t else Inl CastOverflow)"

text \<open>The operators \<^verbatim>\<open>/\<close> and \<^verbatim>\<open>%\<close> of C on integers: the quotient loses its fraction.\<close>

definition c_div :: "int \<Rightarrow> int \<Rightarrow> int" where
  "c_div a b = (if (a < 0) = (b < 0) then \<bar>a\<bar> div \<bar>b\<bar> else - (\<bar>a\<bar> div \<bar>b\<bar>))"

definition c_rem :: "int \<Rightarrow> int \<Rightarrow> int" where
  "c_rem a b = a - b * c_div a b"

subsection \<open>The formatter\<close>

text \<open>
  \<^verbatim>\<open>
  if ( val < 0 )
  {
      decimals = (int16_t)( val * -100 ) % 100;
      units    = (int16_t)( -1 * val );
  }
  else
  {
      decimals = (int16_t)( val * 100 ) % 100;
      units    = (int16_t) val;
  }
  \<close>
  \<open>decimals\<close> is a \<^verbatim>\<open>uint16_t\<close>, \<open>units\<close> an \<^verbatim>\<open>int16_t\<close> (an integer within the range the
  conversion has checked).
\<close>

definition ftc_split :: "real \<Rightarrow> error + (u16 \<times> int)" where
  "ftc_split val =
     (if val < 0 then
        bindE (f32_to_i16 (f32_mul val (- 100))) (\<lambda>a.
        bindE (f32_to_i16 (f32_mul (- 1) val)) (\<lambda>u.
        Inr (of_int (c_rem a 100), u)))
      else
        bindE (f32_to_i16 (f32_mul val 100)) (\<lambda>a.
        bindE (f32_to_i16 val) (\<lambda>u.
        Inr (of_int (c_rem a 100), u))))"

text \<open>
  The scratch buffer \<^verbatim>\<open>uint8_t tmp[20] = {0}\<close> and the pointer \<^verbatim>\<open>s = tmp + 20\<close>, kept as
  its offset in \<open>tmp\<close>. \<open>push\<close> is \<^verbatim>\<open>*--s = c\<close>.
\<close>

definition tmp_init :: "u8 list" where
  "tmp_init = [0, 0, 0, 0, 0, 0, 0, 0, 0, 0, 0, 0, 0, 0, 0, 0, 0, 0, 0, 0]"

definition push :: "u8 list \<Rightarrow> nat \<Rightarrow> u8 \<Rightarrow> error + (u8 list \<times> nat)" where
  "push tmp s c =
     (if s = 0 then Inl PointerUnderflow
      else bindE (wr tmp (s - 1) c) (\<lambda>tmp1. Inr (tmp1, s - 1)))"

text \<open>
  \<^verbatim>\<open>
  while ( units > 0 )
  {
      *--s = ( units % 10 ) + '0';
      units /= 10;
  }
  \<close>
\<close>

function units_loop :: "u8 list \<Rightarrow> nat \<Rightarrow> int \<Rightarrow> error + (u8 list \<times> nat)" where
  "units_loop tmp s units =
     (if 0 < units then
        bindE (push tmp s (of_int (c_rem units 10) + 0x30)) (\<lambda>(tmp1, s1).
        units_loop tmp1 s1 (c_div units 10))
      else Inr (tmp, s))"
  by pat_completeness auto
termination
proof (relation "measure (\<lambda>(tmp, s, units). nat units)")
  show "wf (measure (\<lambda>(tmp, s, units). nat units))"
    by simp
next
  fix tmp tmp1 :: "u8 list" and s s1 :: nat and units :: int and x :: "u8 list \<times> nat"
  assume pos: "0 < units"
  then have "c_div units 10 = units div 10"
    by (simp add: c_div_def)
  then have "c_div units 10 < units"
    using pos by simp
  then show "((tmp1, s1, c_div units 10), (tmp, s, units)) \<in> measure (\<lambda>(tmp, s, units). nat units)"
    using pos by simp
qed

text \<open>
  \<^verbatim>\<open>
  *--s      = ( decimals % 10 ) + '0';
  decimals /= 10;
  *--s = ( decimals % 10 ) + '0';
  *--s = '.';
  ... the units loop ...
  if ( val < 0 ) { *--s = '-'; }
  \<close>
\<close>

definition ftc_emit :: "bool \<Rightarrow> u16 \<Rightarrow> int \<Rightarrow> error + (u8 list \<times> nat)" where
  "ftc_emit neg decimals units =
     bindE (push tmp_init 20 (ucast (decimals mod 10) + 0x30)) (\<lambda>(t1, s1).
     bindE (push t1 s1 (ucast ((decimals div 10) mod 10) + 0x30)) (\<lambda>(t2, s2).
     bindE (push t2 s2 0x2E) (\<lambda>(t3, s3).
     bindE (units_loop t3 s3 units) (\<lambda>(t4, s4).
     if neg then push t4 s4 0x2D else Inr (t4, s4)))))"

text \<open>\<^verbatim>\<open>for ( i = 0; i < 20; i++ ) { out[i] = 0; }\<close> with \<open>i\<close> a \<^verbatim>\<open>uint8_t\<close>.\<close>

function clear_loop :: "u8 list \<Rightarrow> u8 \<Rightarrow> error + u8 list" where
  "clear_loop out i =
     (if i < 20 then bindE (wr out (unat i) 0) (\<lambda>out1. clear_loop out1 (i + 1))
      else Inr out)"
  by pat_completeness auto
termination
proof (relation "measure (\<lambda>(out, i). 20 - unat i)")
  show "wf (measure (\<lambda>(out, i). 20 - unat i))"
    by simp
next
  fix out out1 :: "u8 list" and i :: u8
  assume "i < 20"
  then have lt: "unat i < 20"
    by (simp add: word_less_nat_alt)
  then have "unat (i + 1) = unat i + 1"
    by (simp add: unat_word_ariths)
  then show "((out1, i + 1), (out, i)) \<in> measure (\<lambda>(out, i). 20 - unat i)"
    using lt by simp
qed

text \<open>
  \<^verbatim>\<open>
  for ( i = 0; i < 20; i++ )
  {
      if ( 0 != tmp[i] )
      {
          out[j] = tmp[i];
          j++;
      }
  }
  \<close>
\<close>

function copy_loop :: "u8 list \<Rightarrow> u8 list \<Rightarrow> u8 \<Rightarrow> u8 \<Rightarrow> error + u8 list" where
  "copy_loop tmp out i j =
     (if i < 20 then
        bindE (rd tmp (unat i)) (\<lambda>c.
          if 0 \<noteq> c
          then bindE (wr out (unat j) c) (\<lambda>out1. copy_loop tmp out1 (i + 1) (j + 1))
          else copy_loop tmp out (i + 1) j)
      else Inr out)"
  by pat_completeness auto
termination
proof (relation "measure (\<lambda>(tmp, out, i, j). 20 - unat i)")
  show "wf (measure (\<lambda>(tmp, out, i, j). 20 - unat i))"
    by simp
next
  fix tmp out out1 :: "u8 list" and i j c :: u8
  assume "i < 20"
  then have lt: "unat i < 20"
    by (simp add: word_less_nat_alt)
  then have "unat (i + 1) = unat i + 1"
    by (simp add: unat_word_ariths)
  then show "((tmp, out1, i + 1, j + 1), (tmp, out, i, j)) \<in> measure (\<lambda>(tmp, out, i, j). 20 - unat i)"
    using lt by simp
next
  fix tmp out :: "u8 list" and i j c :: u8
  assume "i < 20"
  then have lt: "unat i < 20"
    by (simp add: word_less_nat_alt)
  then have "unat (i + 1) = unat i + 1"
    by (simp add: unat_word_ariths)
  then show "((tmp, out, i + 1, j), (tmp, out, i, j)) \<in> measure (\<lambda>(tmp, out, i, j). 20 - unat i)"
    using lt by simp
qed

text \<open>
  The whole function. Its result is the output buffer after the call and the returned
  pointer \<open>s\<close>, as its offset in the local array \<open>tmp\<close>.
\<close>

definition utils_float_to_char :: "real \<Rightarrow> u8 list \<Rightarrow> error + (u8 list \<times> nat)" where
  "utils_float_to_char val out =
     bindE (clear_loop out 0) (\<lambda>out1.
     bindE (ftc_split val) (\<lambda>(decimals, units).
     bindE (ftc_emit (val < 0) decimals units) (\<lambda>(tmp, s).
     bindE (copy_loop tmp out1 0 0) (\<lambda>out2.
     Inr (out2, s)))))"

text \<open>
  The text the emission steps produce, written with the decimal digits of the
  representation above: the sign, the digits of \<open>units\<close> if \<open>units > 0\<close>, the point and the
  two digits of \<open>decimals\<close>.
\<close>

definition ftc_text :: "bool \<Rightarrow> u16 \<Rightarrow> int \<Rightarrow> string" where
  "ftc_text neg decimals units =
     (if neg then [CHR ''-''] else [])
     @ (if 0 < units then dec_digits (nat units) else [])
     @ [CHR ''.'', digit_char (unat decimals div 10 mod 10), digit_char (unat decimals mod 10)]"


section \<open>Basic facts\<close>

declare reverse_loop.simps [simp del]
declare itoa_loop.simps [simp del]
declare dec_digits.simps [simp del]
declare ilog2_up.simps [simp del]
declare ilog2_down.simps [simp del]
declare units_loop.simps [simp del]
declare clear_loop.simps [simp del]
declare copy_loop.simps [simp del]

lemma bindE_Inl [simp]: "bindE (Inl e) f = Inl e"
  by (simp add: bindE_def)

lemma bindE_Inr [simp]: "bindE (Inr x) f = f x"
  by (simp add: bindE_def)

text \<open>The continuation of a bind is only looked at once its first part is a value.\<close>

lemma bindE_cong_weak [cong]: "m = m' \<Longrightarrow> bindE m f = bindE m' f"
  by simp

subsection \<open>The reversal loop\<close>

lemma word_succ_pred:
  fixes i j :: u32
  assumes "i < j"
  shows "unat i < unat j" "unat (i + 1) = unat i + 1" "unat (j - 1) = unat j - 1"
proof -
  show ij: "unat i < unat j"
    using assms by (simp add: word_less_nat_alt)
  have "unat j < 2 ^ 32"
    using unsigned_less [of j] by simp
  then show "unat (i + 1) = unat i + 1"
    using ij by (simp add: unat_word_ariths)
  have "1 \<le> j"
    using ij by (simp add: word_le_nat_alt)
  then show "unat (j - 1) = unat j - 1"
    by (simp add: unat_sub)
qed

lemma reverse_loop_spec:
  "unat j < length s \<Longrightarrow>
   \<exists>s'. reverse_loop s i j = Inr s' \<and> length s' = length s \<and>
     (\<forall>k<length s. s' ! k = (if unat i \<le> k \<and> k \<le> unat j then s ! (unat i + unat j - k) else s ! k))"
proof (induction s i j rule: reverse_loop.induct)
  case (1 s i j)
  show ?case
  proof (cases "i < j")
    case False
    then have "reverse_loop s i j = Inr s"
      by (simp add: reverse_loop.simps)
    moreover have "unat i + unat j - k = k" if "unat i \<le> k" "k \<le> unat j" for k
      using False that by (simp add: word_less_nat_alt)
    ultimately show ?thesis
      by simp
  next
    case True
    note w = word_succ_pred [OF True]
    define s2 where "s2 = s[unat i := s ! unat j, unat j := s ! unat i]"
    have len2: "length s2 = length s"
      by (simp add: s2_def)
    have step: "reverse_loop s i j = reverse_loop s2 (i + 1) (j - 1)"
      using True w(1) "1.prems"
      by (subst reverse_loop.simps) (simp add: rd_def wr_def s2_def)
    have "unat (j - 1) < length s2"
      using w "1.prems" len2 by simp
    from "1.IH" [OF True, of s2, OF this]
    obtain s' where s': "reverse_loop s2 (i + 1) (j - 1) = Inr s'" "length s' = length s2"
      "\<forall>k<length s2. s' ! k =
         (if unat (i + 1) \<le> k \<and> k \<le> unat (j - 1)
          then s2 ! (unat (i + 1) + unat (j - 1) - k) else s2 ! k)"
      by blast
    have "s' ! k = (if unat i \<le> k \<and> k \<le> unat j then s ! (unat i + unat j - k) else s ! k)"
      if k: "k < length s" for k
    proof -
      have "s' ! k = (if unat i + 1 \<le> k \<and> k \<le> unat j - 1
          then s2 ! (unat i + unat j - k) else s2 ! k)"
        using s'(3) k len2 w by auto
      then show ?thesis
        using k w(1) "1.prems" by (auto simp: s2_def nth_list_update)
    qed
    then show ?thesis
      using step s'(1,2) len2 by simp
  qed
qed

lemma utils_reverse_eq:
  assumes "0 < unat len" "unat len \<le> length s"
  shows "utils_reverse s len = Inr (rev (take (unat len) s) @ drop (unat len) s)"
proof -
  have "1 \<le> len"
    using assms(1) by (simp add: word_le_nat_alt)
  then have j: "unat (len - 1) = unat len - 1"
    by (simp add: unat_sub)
  then have "unat (len - 1) < length s"
    using assms by simp
  from reverse_loop_spec [OF this, of 0]
  obtain s' where s': "reverse_loop s 0 (len - 1) = Inr s'" "length s' = length s"
    "\<forall>k<length s. s' ! k = (if k \<le> unat len - 1 then s ! (unat len - 1 - k) else s ! k)"
    using j by auto
  have "s' = rev (take (unat len) s) @ drop (unat len) s"
  proof (rule nth_equalityI)
    show "length s' = length (rev (take (unat len) s) @ drop (unat len) s)"
      using s'(2) assms by simp
  next
    fix k assume "k < length s'"
    then have k: "k < length s" using s'(2) by simp
    show "s' ! k = (rev (take (unat len) s) @ drop (unat len) s) ! k"
    proof (cases "k < unat len")
      case True
      then have "k \<le> unat len - 1" "unat len - Suc k = unat len - 1 - k" "unat len - 1 - k < unat len"
        by simp_all
      moreover have "s' ! k = (if k \<le> unat len - 1 then s ! (unat len - 1 - k) else s ! k)"
        using s'(3) k by blast
      ultimately show ?thesis
        using True assms by (simp add: nth_append rev_nth min_absorb2)
    next
      case False
      then have "\<not> k \<le> unat len - 1"
        using assms(1) by simp
      moreover have "s' ! k = (if k \<le> unat len - 1 then s ! (unat len - 1 - k) else s ! k)"
        using s'(3) k by blast
      ultimately have "s' ! k = s ! k"
        by simp
      then show ?thesis
        using False k assms by (simp add: nth_append min_absorb2)
    qed
  qed
  then show ?thesis
    using s'(1) by (simp add: utils_reverse_def)
qed

lemma utils_reverse_app:
  assumes "0 < unat len" "length s = unat len"
  shows "utils_reverse (s @ t) len = Inr (rev s @ t)"
  using utils_reverse_eq [of len "s @ t"] assms by simp

lemma of_char_digit_char:
  assumes "d < 10"
  shows "(of_char (digit_char d) :: u8) = 0x30 + of_nat d"
proof -
  have "d \<in> {0, 1, 2, 3, 4, 5, 6, 7, 8, 9}"
    using assms by auto
  then have "(of_char (digit_char d) :: nat) = 48 + d"
    by (auto simp: digit_char_def)
  then have "(of_nat (of_char (digit_char d)) :: u8) = of_nat (48 + d)"
    by simp
  then show ?thesis
    by (simp add: of_nat_of_char)
qed

lemma digit_byte:
  fixes nr :: u32
  shows "(ucast (nr mod 10) :: u8) + 0x30 = of_char (digit_char (unat nr mod 10))"
proof -
  have "(ucast (nr mod 10) :: u8) = of_nat (unat (nr mod 10))"
    by simp
  also have "unat (nr mod 10) = unat nr mod 10"
    by (simp add: unat_mod)
  finally show ?thesis
    by (simp add: of_char_digit_char)
qed

subsection \<open>The digit loop\<close>

lemma rev_dec_digits:
  "rev (dec_digits n) = digit_char (n mod 10) # (if n < 10 then [] else rev (dec_digits (n div 10)))"
  by (subst dec_digits.simps) simp

lemma length_dec_digits:
  "length (dec_digits n) = (if n < 10 then 1 else Suc (length (dec_digits (n div 10))))"
  by (subst dec_digits.simps) simp

lemma length_dec_digits_pos: "0 < length (dec_digits n)"
  by (subst length_dec_digits) simp

lemma length_dec_digits_le: "n < 10 ^ Suc k \<Longrightarrow> length (dec_digits n) \<le> Suc k"
proof (induction k arbitrary: n)
  case 0
  then show ?case by (subst length_dec_digits) simp
next
  case (Suc k)
  have "n div 10 < 10 ^ Suc k"
    using Suc.prems by (simp add: less_mult_imp_div_less)
  from Suc.IH [OF this] show ?case
    by (subst length_dec_digits) simp
qed

lemma length_dec_digits_unat: "length (dec_digits (unat (w :: u32))) \<le> 10"
proof -
  have "unat w < 2 ^ 32"
    using unsigned_less [of w] by simp
  then have "unat w < 10 ^ Suc 9"
    by simp
  from length_dec_digits_le [OF this] show ?thesis
    by simp
qed

lemma itoa_steps_rec:
  "itoa_steps n i smax =
     (if n < 10 \<or> smax - i \<le> 1 then 1 else Suc (itoa_steps (n div 10) (Suc i) smax))"
proof -
  have "0 < length (dec_digits (n div 10))"
    by (rule length_dec_digits_pos)
  then show ?thesis
    unfolding itoa_steps_def by (subst length_dec_digits) auto
qed

lemma itoa_loop_run:
  fixes s_max i nr :: u32
  shows "unat i + itoa_steps (unat nr) (unat i) (unat s_max) \<le> length s \<Longrightarrow>
     unat i + itoa_steps (unat nr) (unat i) (unat s_max) < 2 ^ 32 \<Longrightarrow>
     itoa_loop s s_max i nr =
       Inr (take (unat i) s
              @ take (itoa_steps (unat nr) (unat i) (unat s_max)) (rev (bytes_of (dec_digits (unat nr))))
              @ drop (unat i + itoa_steps (unat nr) (unat i) (unat s_max)) s,
            i + of_nat (itoa_steps (unat nr) (unat i) (unat s_max)),
            of_nat (unat nr div 10 ^ itoa_steps (unat nr) (unat i) (unat s_max)))"
proof (induction s s_max i nr rule: itoa_loop.induct)
  case (1 s s_max i nr)
  let ?m = "itoa_steps (unat nr) (unat i) (unat s_max)"
  let ?c = "(ucast (nr mod 10) :: u8) + 0x30"
  let ?s1 = "s[unat i := ?c]"
  have m1: "1 \<le> ?m"
    by (subst itoa_steps_rec) simp
  have i_len: "unat i < length s"
    using "1.prems"(1) m1 by simp
  have i1: "unat (i + 1) = unat i + 1"
    using "1.prems"(2) m1 by (simp add: unat_word_ariths)
  have dv: "unat (nr div 10) = unat nr div 10"
    by (simp add: unat_div)
  have w: "wr s (unat i) ?c = Inr ?s1"
    using i_len by (simp add: wr_def)
  have cond: "(0 < nr div 10 \<and> i + 1 < s_max) \<longleftrightarrow> \<not> (unat nr < 10 \<or> unat s_max - unat i \<le> 1)"
    using i1 dv by (auto simp: word_less_nat_alt)
  have hd: "rev (bytes_of (dec_digits (unat nr))) =
      ?c # (if unat nr < 10 then [] else rev (bytes_of (dec_digits (unat nr div 10))))"
    unfolding bytes_of_def rev_map
    by (subst rev_dec_digits) (simp add: digit_byte)
  have upd: "?s1 = take (unat i) s @ ?c # drop (Suc (unat i)) s"
    using i_len by (rule upd_conv_take_nth_drop)
  show ?case
  proof (cases "unat nr < 10 \<or> unat s_max - unat i \<le> 1")
    case True
    then have m: "?m = 1"
      by (subst itoa_steps_rec) simp
    have nc: "\<not> (0 < nr div 10 \<and> i + 1 < s_max)"
      using True cond by blast
    have "itoa_loop s s_max i nr = Inr (?s1, i + 1, nr div 10)"
      by (subst itoa_loop.simps) (simp add: w nc)
    moreover have "(of_nat (unat nr div 10) :: u32) = nr div 10"
      using dv [symmetric] by simp
    ultimately show ?thesis
      using upd by (simp add: m hd)
  next
    case False
    let ?m' = "itoa_steps (unat nr div 10) (Suc (unat i)) (unat s_max)"
    have m: "?m = Suc ?m'"
      using False by (subst itoa_steps_rec) simp
    have c: "0 < nr div 10 \<and> i + 1 < s_max"
      using False cond by simp
    have step: "itoa_loop s s_max i nr = itoa_loop ?s1 s_max (i + 1) (nr div 10)"
      by (subst itoa_loop.simps) (simp add: w c)
    have p1: "unat (i + 1) + itoa_steps (unat (nr div 10)) (unat (i + 1)) (unat s_max) \<le> length ?s1"
      using "1.prems"(1) m i1 dv by simp
    have p2: "unat (i + 1) + itoa_steps (unat (nr div 10)) (unat (i + 1)) (unat s_max) < 2 ^ 32"
      using "1.prems"(2) m i1 dv by simp
    have tk: "take (Suc (unat i)) ?s1 = take (unat i) s @ [?c]"
      using i_len by (simp add: take_Suc_conv_app_nth)
    have dr: "drop (Suc (unat i + ?m')) ?s1 = drop (Suc (unat i + ?m')) s"
      by simp
    have dd: "unat nr div 10 div 10 ^ ?m' = unat nr div 10 ^ Suc ?m'"
      by (simp add: div_mult2_eq)
    from "1.IH" [OF c p1 p2] show ?thesis
      using False by (simp add: step m i1 dv tk dr dd hd add.assoc)
  qed
qed

lemma uint_of_sint:
  fixes n :: i32
  assumes "0 \<le> k" "k < 2 ^ 32" "n = word_of_int k"
  shows "unat n = nat k"
proof -
  have "uint n = k mod 2 ^ 32"
    using assms(3) by (simp add: uint_word_of_int)
  then have "uint n = k"
    using assms(1,2) by simp
  then show ?thesis
    by (simp only: unat_eq_nat_uint)
qed

lemma unat_itoa_nr: "unat (itoa_nr n) = nat \<bar>sint n\<bar>"
proof -
  have lo: "- (2 ^ 31) \<le> sint n" and hi: "sint n < 2 ^ 31"
    using sint_ge [of n] sint_lt [of n] by simp_all
  show ?thesis
  proof (cases "sint n < 0")
    case True
    have "- n = word_of_int (- sint n)"
      by simp
    from uint_of_sint [OF _ _ this] have "unat (- n) = nat (- sint n)"
      using True lo by simp
    then show ?thesis
      using True by (simp add: itoa_nr_def)
  next
    case False
    have "n = word_of_int (sint n)"
      by simp
    from uint_of_sint [OF _ _ this] have "unat n = nat (sint n)"
      using False hi by simp
    then show ?thesis
      using False by (simp add: itoa_nr_def)
  qed
qed

lemma dec_digits_bound: "n < 10 ^ length (dec_digits n)"
proof (induction n rule: dec_digits.induct)
  case (1 n)
  show ?case
  proof (cases "n < 10")
    case True
    then show ?thesis by (subst length_dec_digits) simp
  next
    case False
    from "1.IH" [OF False] have "n div 10 < 10 ^ length (dec_digits (n div 10))" .
    then have "n < 10 * 10 ^ length (dec_digits (n div 10))"
      by simp
    then show ?thesis
      using False by (subst length_dec_digits) simp
  qed
qed

subsection \<open>The success path of the integer formatter\<close>

lemma itoa_loop_done:
  fixes s_max nr :: u32
  assumes "length (dec_digits (unat nr)) \<le> unat s_max \<or> length (dec_digits (unat nr)) = 1"
    and "length (dec_digits (unat nr)) \<le> length s"
  shows "itoa_loop s s_max 0 nr =
     Inr (rev (bytes_of (dec_digits (unat nr))) @ drop (length (dec_digits (unat nr))) s,
          of_nat (length (dec_digits (unat nr))), 0)"
proof -
  let ?d = "length (dec_digits (unat nr))"
  have pos: "0 < ?d"
    by (rule length_dec_digits_pos)
  have m: "itoa_steps (unat nr) 0 (unat s_max) = ?d"
    using assms(1) pos by (auto simp: itoa_steps_def)
  have le: "?d \<le> 10"
    by (rule length_dec_digits_unat)
  have "unat nr div 10 ^ ?d = 0"
    using dec_digits_bound [of "unat nr"] by simp
  moreover have "length (rev (bytes_of (dec_digits (unat nr)))) = ?d"
    by (simp add: bytes_of_def)
  ultimately show ?thesis
    using itoa_loop_run [of 0 nr s_max s] assms(2) le by (simp add: m)
qed

lemma itoa_finish_plus:
  assumes "length ds = unat i" "0 < unat i"
  shows "itoa_finish False (ds @ c # rest) i = Inr (rev ds @ 0 # rest, i)"
proof -
  have "wr (ds @ c # rest) (unat i) 0 = Inr (ds @ 0 # rest)"
    using assms by (simp add: wr_def list_update_append)
  moreover have "utils_reverse (ds @ 0 # rest) i = Inr (rev ds @ 0 # rest)"
    using utils_reverse_app [of i ds "0 # rest"] assms by simp
  ultimately show ?thesis
    by (simp add: itoa_finish_def)
qed

lemma itoa_finish_minus:
  assumes "length ds = unat i" "unat i + 1 < 2 ^ 32"
  shows "itoa_finish True (ds @ c # c' # rest) i = Inr (0x2D # rev ds @ 0 # rest, i + 1)"
proof -
  have i1: "unat (i + 1) = Suc (unat i)"
    using assms(2) by (simp add: unat_word_ariths)
  have "wr (ds @ c # c' # rest) (unat i) 0x2D = Inr (ds @ 0x2D # c' # rest)"
    using assms by (simp add: wr_def list_update_append)
  moreover have "wr (ds @ 0x2D # c' # rest) (unat (i + 1)) 0 = Inr (ds @ 0x2D # 0 # rest)"
    using assms i1 by (simp add: wr_def list_update_append)
  moreover have "utils_reverse ((ds @ [0x2D]) @ 0 # rest) (i + 1) = Inr (rev (ds @ [0x2D]) @ 0 # rest)"
    by (rule utils_reverse_app) (simp_all add: i1 assms)
  ultimately show ?thesis
    by (simp add: itoa_finish_def)
qed

lemma drop_two:
  assumes "Suc d < length s"
  shows "drop d s = s ! d # s ! Suc d # drop (Suc (Suc d)) s"
  using assms by (simp add: Cons_nth_drop_Suc)

lemma utils_itoa_done:
  fixes n :: i32 and s_max :: u32
  assumes fit: "length (dec_digits (nat \<bar>sint n\<bar>)) \<le> unat s_max \<or> length (dec_digits (nat \<bar>sint n\<bar>)) = 1"
    and room: "length (decimal (sint n)) < length s"
  shows "utils_itoa n s s_max =
     Inr (bytes_of (decimal (sint n)) @ 0 # drop (Suc (length (decimal (sint n)))) s,
          of_nat (length (decimal (sint n))))"
proof -
  let ?ds = "dec_digits (nat \<bar>sint n\<bar>)"
  let ?d = "length ?ds"
  let ?r = "rev (bytes_of ?ds)"
  have nr: "unat (itoa_nr n) = nat \<bar>sint n\<bar>"
    by (rule unat_itoa_nr)
  have le: "?d \<le> 10"
    using length_dec_digits_unat [of "itoa_nr n"] nr by simp
  have ud: "unat (of_nat ?d :: u32) = ?d"
    using le by (simp add: unat_of_nat)
  have lr: "length ?r = unat (of_nat ?d :: u32)"
    by (simp add: ud bytes_of_def)
  have pos: "0 < unat (of_nat ?d :: u32)"
    using length_dec_digits_pos [of "nat \<bar>sint n\<bar>"] by (simp add: ud)
  show ?thesis
  proof (cases "sint n < 0")
    case True
    then have dec: "decimal (sint n) = CHR ''-'' # ?ds"
      by (simp add: decimal_def)
    have "Suc ?d < length s"
      using room dec by simp
    then have dr: "drop ?d s = s ! ?d # s ! Suc ?d # drop (Suc (Suc ?d)) s"
      by (rule drop_two)
    have loop: "itoa_loop s s_max 0 (itoa_nr n) = Inr (?r @ drop ?d s, of_nat ?d, 0)"
      using itoa_loop_done [of "itoa_nr n" s_max s] fit room dec nr by simp
    have im: "itoa_is_minus n"
      using True by (simp add: itoa_is_minus_def)
    have "utils_itoa n s s_max = itoa_finish True (?r @ drop ?d s) (of_nat ?d)"
      by (simp add: utils_itoa_def loop im)
    also have "\<dots> = Inr (0x2D # rev ?r @ 0 # drop (Suc (Suc ?d)) s, of_nat ?d + 1)"
      unfolding dr using lr le by (intro itoa_finish_minus) (simp_all add: ud)
    also have "\<dots> = Inr (bytes_of (decimal (sint n)) @ 0 # drop (Suc (length (decimal (sint n)))) s,
          of_nat (length (decimal (sint n))))"
      unfolding dec by (simp add: bytes_of_def rev_map)
    finally show ?thesis .
  next
    case False
    then have dec: "decimal (sint n) = ?ds"
      by (simp add: decimal_def)
    have "?d < length s"
      using room dec by simp
    then have dr: "drop ?d s = s ! ?d # drop (Suc ?d) s"
      by (simp add: Cons_nth_drop_Suc)
    have loop: "itoa_loop s s_max 0 (itoa_nr n) = Inr (?r @ drop ?d s, of_nat ?d, 0)"
      using itoa_loop_done [of "itoa_nr n" s_max s] fit room dec nr by simp
    have im: "\<not> itoa_is_minus n"
      using False by (simp add: itoa_is_minus_def)
    have "utils_itoa n s s_max = itoa_finish False (?r @ drop ?d s) (of_nat ?d)"
      by (simp add: utils_itoa_def loop im)
    also have "\<dots> = Inr (rev ?r @ 0 # drop (Suc ?d) s, of_nat ?d)"
      unfolding dr using lr pos by (rule itoa_finish_plus)
    also have "\<dots> = Inr (bytes_of (decimal (sint n)) @ 0 # drop (Suc (length (decimal (sint n)))) s,
          of_nat (length (decimal (sint n))))"
      unfolding dec by (simp add: bytes_of_def rev_map)
    finally show ?thesis .
  qed
qed


lemmas itoa_eval = utils_itoa_def itoa_nr_def itoa_is_minus_def itoa_finish_def wr_def rd_def
  utils_reverse_def reverse_loop.simps itoa_loop.simps

section \<open>Claims about \<^verbatim>\<open>utils_reverse\<close>\<close>

text \<open>
  C5. For every buffer \<open>x\<close> and every length \<open>len \<ge> 1\<close> with \<open>x\<close> holding at least \<open>len\<close>
  bytes, \<^verbatim>\<open>utils_reverse(x, len)\<close> returns, and applying it a second time restores the
  buffer: the first \<open>len\<close> bytes are reversed by the first call and reversed back by
  the second, the bytes behind them stay as they are.
\<close>

theorem utils_reverse_twice:
  assumes "1 \<le> unat len" and "unat len \<le> length x"
  shows "\<exists>y. utils_reverse x len = Inr y \<and> utils_reverse y len = Inr x
    \<and> take (unat len) y = rev (take (unat len) x) \<and> drop (unat len) y = drop (unat len) x"
proof -
  let ?y = "rev (take (unat len) x) @ drop (unat len) x"
  have pos: "0 < unat len"
    using assms(1) by simp
  have one: "utils_reverse x len = Inr ?y"
    using pos assms(2) by (rule utils_reverse_eq)
  have "utils_reverse ?y len = Inr (rev (rev (take (unat len) x)) @ drop (unat len) x)"
    using pos assms(2) by (intro utils_reverse_app) simp_all
  then have two: "utils_reverse ?y len = Inr x"
    by simp
  show ?thesis
    using one two assms(2) by simp
qed

theorem utils_reverse_twice_witness:
  "1 \<le> unat (3 :: u32) \<and> unat (3 :: u32) \<le> length [0x61, 0x62, 0x63, 0x64 :: u8]
   \<and> utils_reverse [0x61, 0x62, 0x63, 0x64] 3 = Inr [0x63, 0x62, 0x61, 0x64]
   \<and> utils_reverse [0x63, 0x62, 0x61, 0x64] 3 = Inr [0x61, 0x62, 0x63, 0x64]"
  using utils_reverse_twice [of 3 "[0x61, 0x62, 0x63, 0x64]"]
  by (simp add: utils_reverse_def reverse_loop.simps rd_def wr_def)

text \<open>The index \<^verbatim>\<open>s_len - 1\<close> at \<^verbatim>\<open>s_len = 0\<close>.\<close>

lemma u32_zero_minus_one: "unat ((0 :: u32) - 1) = 4294967295"
  by (simp add: unsigned_minus_1_eq_mask mask_eq_exp_minus_1)

text \<open>
  C8. For every length \<open>len \<ge> 1\<close>, \<^verbatim>\<open>utils_reverse(s, len)\<close> reads and writes only the
  indices \<open>0\<close> to \<open>len - 1\<close>: on a buffer of exactly \<open>len\<close> bytes no access is out of
  bounds, and whatever lies behind the first \<open>len\<close> bytes is neither used nor changed.
  For \<open>len = 0\<close> the index \<open>len - 1\<close> wraps to \<open>2 ^ 32 - 1\<close>, the loop is entered and
  its first round already leaves the buffer (any buffer of fewer than \<open>2 ^ 32\<close> bytes):
  the call is undefined.
\<close>

theorem utils_reverse_bounds:
  "(1 \<le> unat len \<longrightarrow> length s = unat len \<longrightarrow> utils_reverse (s @ t) len = Inr (rev s @ t))
   \<and> (length b < 2 ^ 32 \<longrightarrow>
        utils_reverse b 0 = Inl (OutOfBounds (if b = [] then 0 else unat ((0 :: u32) - 1))))
   \<and> unat ((0 :: u32) - 1) = 2 ^ 32 - 1"
proof (intro conjI impI)
  assume "1 \<le> unat len" and "length s = unat len"
  then show "utils_reverse (s @ t) len = Inr (rev s @ t)"
    by (intro utils_reverse_app) simp_all
next
  assume len: "length b < 2 ^ 32"
  have lt: "(0 :: u32) < 0 - 1"
    using u32_zero_minus_one by (simp add: word_less_nat_alt)
  show "utils_reverse b 0 = Inl (OutOfBounds (if b = [] then 0 else unat ((0 :: u32) - 1)))"
  proof (cases "b = []")
    case True
    then show ?thesis
      unfolding utils_reverse_def
      by (subst reverse_loop.simps) (simp add: lt rd_def del: diff_0)
  next
    case False
    then have "0 < length b"
      by simp
    moreover have "\<not> unat ((0 :: u32) - 1) < length b"
      using len by (simp only: u32_zero_minus_one) simp
    ultimately show ?thesis
      unfolding utils_reverse_def
      by (subst reverse_loop.simps) (simp add: lt rd_def False del: diff_0)
  qed
next
  show "unat ((0 :: u32) - 1) = 2 ^ 32 - 1"
    by (simp only: u32_zero_minus_one) simp
qed

theorem utils_reverse_bounds_witness:
  "1 \<le> unat (3 :: u32) \<and> length [1, 2, 3 :: u8] = unat (3 :: u32)
   \<and> utils_reverse ([1, 2, 3] @ [9]) 3 = Inr (rev [1, 2, 3] @ [9])
   \<and> length [7 :: u8] < 2 ^ 32
   \<and> utils_reverse [7] 0 = Inl (OutOfBounds 4294967295)"
  using utils_reverse_bounds [of 3 "[1, 2, 3]" "[9]" "[7]"] u32_zero_minus_one
  by simp

subsection \<open>Facts about the decimal representation\<close>

lemmas dec_eval = decimal_def dec_digits.simps digit_char_def bytes_of_def

lemma dec_digits_chars: "set (dec_digits n) \<subseteq> set ''0123456789''"
proof (induction n rule: dec_digits.induct)
  case (1 n)
  have d: "digit_char k \<in> set ''0123456789''" if "k < 10" for k
    unfolding digit_char_def using that by (intro nth_mem) simp
  show ?case
  proof (cases "n < 10")
    case True
    then show ?thesis
      using d [of n] by (subst dec_digits.simps) simp
  next
    case False
    have "digit_char (n mod 10) \<in> set ''0123456789''"
      by (rule d) simp
    with "1.IH" [OF False] show ?thesis
      using False by (subst dec_digits.simps) simp
  qed
qed

lemma decimal_minus_iff: "(\<exists>ds. decimal n = CHR ''-'' # ds) \<longleftrightarrow> n < 0"
proof (cases "n < 0")
  case True
  then show ?thesis by (simp add: decimal_def)
next
  case False
  have "dec_digits (nat n) \<noteq> []"
    using length_dec_digits_pos [of "nat n"] by auto
  then have "hd (dec_digits (nat n)) \<in> set ''0123456789''"
    using dec_digits_chars [of "nat n"] by (meson hd_in_set subsetD)
  then have "hd (dec_digits (nat n)) \<noteq> CHR ''-''"
    by auto
  then show ?thesis
    using False by (auto simp: decimal_def)
qed

lemma decimal_chars: "set (decimal n) \<subseteq> set ''-0123456789''"
proof (cases "n < 0")
  case True
  then show ?thesis
    using dec_digits_chars [of "nat (- n)"] by (simp add: decimal_def subset_insertI2)
next
  case False
  then show ?thesis
    using dec_digits_chars [of "nat n"] by (simp add: decimal_def subset_insertI2)
qed

lemma decimal_no_nul: "(0 :: u8) \<notin> set (bytes_of (decimal n))"
proof -
  have "set (bytes_of (decimal n)) \<subseteq> of_char ` set ''-0123456789''"
    using decimal_chars [of n] unfolding bytes_of_def by auto
  moreover have "(0 :: u8) \<notin> of_char ` set ''-0123456789''"
    by simp
  ultimately show ?thesis
    by blast
qed

lemma length_decimal_le: "length (decimal (sint (n :: i32))) \<le> 11"
proof -
  have "length (dec_digits (nat \<bar>sint n\<bar>)) \<le> 10"
    using length_dec_digits_unat [of "itoa_nr n"] by (simp add: unat_itoa_nr)
  then show ?thesis
    by (auto simp: decimal_def abs_if split: if_splits)
qed

lemma utils_itoa_text:
  fixes n :: i32 and s_max :: u32
  assumes "decimal (sint n) = txt" and "length txt = L"
    and "length (dec_digits (nat \<bar>sint n\<bar>)) \<le> unat s_max \<or> length (dec_digits (nat \<bar>sint n\<bar>)) = 1"
    and "L < length s"
  shows "utils_itoa n s s_max = Inr (bytes_of txt @ 0 # drop (Suc L) s, of_nat L)"
  using utils_itoa_done [of n s_max s] assms by simp


lemma itoa_loop_cut:
  fixes n :: i32 and s_max :: u32
  assumes room: "max 1 (unat s_max) \<le> length s"
  shows "itoa_loop s s_max 0 (itoa_nr n) =
     Inr (take (itoa_steps (nat \<bar>sint n\<bar>) 0 (unat s_max)) (rev (bytes_of (dec_digits (nat \<bar>sint n\<bar>))))
            @ drop (itoa_steps (nat \<bar>sint n\<bar>) 0 (unat s_max)) s,
          of_nat (itoa_steps (nat \<bar>sint n\<bar>) 0 (unat s_max)),
          of_nat (nat \<bar>sint n\<bar> div 10 ^ itoa_steps (nat \<bar>sint n\<bar>) 0 (unat s_max)))"
proof -
  let ?m = "itoa_steps (nat \<bar>sint n\<bar>) 0 (unat s_max)"
  have "?m \<le> max 1 (unat s_max)"
    by (simp add: itoa_steps_def)
  then have a: "?m \<le> length s"
    using room by linarith
  have "?m \<le> 10"
    using length_dec_digits_unat [of "itoa_nr n"] by (simp add: itoa_steps_def unat_itoa_nr)
  then have b: "?m < 2 ^ 32"
    by simp
  show ?thesis
    using itoa_loop_run [of 0 "itoa_nr n" s_max s] a b by (simp add: unat_itoa_nr)
qed


subsection \<open>The decimal representation reads back\<close>

lemma digit_val_digit_char:
  assumes "d < 10"
  shows "digit_val (digit_char d) = d"
proof -
  have "d \<in> {0, 1, 2, 3, 4, 5, 6, 7, 8, 9}"
    using assms by auto
  then show ?thesis
    by (auto simp: digit_val_def digit_char_def)
qed

lemma dec_value_digits: "dec_value (dec_digits n) = n"
proof (induction n rule: dec_digits.induct)
  case (1 n)
  show ?case
  proof (cases "n < 10")
    case True
    then show ?thesis
      by (subst dec_digits.simps) (simp add: dec_value_def digit_val_digit_char)
  next
    case False
    have "dec_value (dec_digits (n div 10)) = n div 10"
      using False by (rule "1.IH")
    then show ?thesis
      using False by (subst dec_digits.simps) (simp add: dec_value_def digit_val_digit_char)
  qed
qed

lemma dec_digits_no_leading_zero:
  "10 \<le> n \<Longrightarrow> hd (dec_digits n) \<noteq> CHR ''0''"
proof (induction n rule: dec_digits.induct)
  case (1 n)
  have ne: "dec_digits (n div 10) \<noteq> []"
    using length_dec_digits_pos [of "n div 10"] by auto
  have nl: "\<not> n < 10"
    using "1.prems" by simp
  have hd: "hd (dec_digits n) = hd (dec_digits (n div 10))"
    using nl ne by (subst dec_digits.simps) simp
  show ?case
  proof (cases "n div 10 < 10")
    case True
    have pos: "0 < n div 10"
      using "1.prems" by simp
    have "n div 10 \<in> {1, 2, 3, 4, 5, 6, 7, 8, 9}"
      using True pos by auto
    then have "digit_char (n div 10) \<noteq> CHR ''0''"
      by (auto simp: digit_char_def)
    moreover have "dec_digits (n div 10) = [digit_char (n div 10)]"
      using True by (subst dec_digits.simps) simp
    ultimately show ?thesis
      using hd by simp
  next
    case False
    then have "10 \<le> n div 10"
      by simp
    from "1.IH" [OF nl this] show ?thesis
      using hd by simp
  qed
qed

section \<open>Claims about \<^verbatim>\<open>utils_itoa\<close>\<close>

text \<open>
  C1. For every 32-bit signed \<open>n\<close> and every \<open>s_max\<close> that is at least the number of decimal
  digits of \<open>n\<close>, on a buffer with room for the text and its terminator,
  \<^verbatim>\<open>utils_itoa(n, s, s_max)\<close> leaves in \<open>s\<close> the standard decimal representation of \<open>n\<close>
  followed by a null byte, the bytes behind it untouched, and returns the length of the
  text without the terminator. The text holds no null byte and starts with \<open>-\<close> if and
  only if \<open>n < 0\<close>. In particular \<^verbatim>\<open>utils_itoa(-128, s, 10)\<close> leaves \<open>-128\<close> and returns 4,
  and \<^verbatim>\<open>utils_itoa(0, s, s_max)\<close> leaves \<open>0\<close> and returns 1 for every \<open>s_max\<close>.
\<close>

theorem utils_itoa_decimal:
  "(length (dec_digits (nat \<bar>sint n\<bar>)) \<le> unat s_max \<longrightarrow> length (decimal (sint n)) < length s \<longrightarrow>
      utils_itoa n s s_max =
        Inr (bytes_of (decimal (sint n)) @ 0 # drop (Suc (length (decimal (sint n)))) s,
             of_nat (length (decimal (sint n))))
      \<and> unat (of_nat (length (decimal (sint n))) :: u32) = length (decimal (sint n))
      \<and> 0 \<notin> set (bytes_of (decimal (sint n)))
      \<and> ((\<exists>ds. decimal (sint n) = CHR ''-'' # ds) \<longleftrightarrow> sint n < 0))
   \<and> (5 \<le> length b \<longrightarrow> utils_itoa (- 128) b 10 = Inr (bytes_of ''-128'' @ 0 # drop 5 b, 4))
   \<and> (2 \<le> length c \<longrightarrow> utils_itoa 0 c c_max = Inr (bytes_of ''0'' @ 0 # drop 2 c, 1))"
proof (intro conjI impI)
  assume "length (dec_digits (nat \<bar>sint n\<bar>)) \<le> unat s_max" "length (decimal (sint n)) < length s"
  then show "utils_itoa n s s_max =
        Inr (bytes_of (decimal (sint n)) @ 0 # drop (Suc (length (decimal (sint n)))) s,
             of_nat (length (decimal (sint n))))"
    by (intro utils_itoa_done) simp_all
next
  show "unat (of_nat (length (decimal (sint n))) :: u32) = length (decimal (sint n))"
    using length_decimal_le [of n] by (simp add: unat_of_nat)
next
  show "0 \<notin> set (bytes_of (decimal (sint n)))"
    by (rule decimal_no_nul)
next
  show "(\<exists>ds. decimal (sint n) = CHR ''-'' # ds) \<longleftrightarrow> sint n < 0"
    by (rule decimal_minus_iff)
next
  assume "5 \<le> length b"
  then show "utils_itoa (- 128) b 10 = Inr (bytes_of ''-128'' @ 0 # drop 5 b, 4)"
    using utils_itoa_text [of "- 128" "''-128''" 4 10 b] by (simp add: dec_eval)
next
  assume "2 \<le> length c"
  then show "utils_itoa 0 c c_max = Inr (bytes_of ''0'' @ 0 # drop 2 c, 1)"
    using utils_itoa_text [of 0 "''0''" 1 c_max c] by (simp add: dec_eval numeral_2_eq_2)
qed


theorem utils_itoa_decimal_witness:
  "length (dec_digits (nat \<bar>sint (2021 :: i32)\<bar>)) \<le> unat (4 :: u32)
   \<and> length (decimal (sint (2021 :: i32))) < length [7, 7, 7, 7, 7, 7 :: u8]
   \<and> utils_itoa 2021 [7, 7, 7, 7, 7, 7] 4 = Inr (bytes_of ''2021'' @ [0, 7], 4)
   \<and> 5 \<le> length [7, 7, 7, 7, 7, 7, 7, 7, 7, 7 :: u8]
   \<and> utils_itoa (- 128) [7, 7, 7, 7, 7, 7, 7, 7, 7, 7] 10 = Inr (bytes_of ''-128'' @ [0, 7, 7, 7, 7, 7], 4)
   \<and> 2 \<le> length [7, 7 :: u8]
   \<and> utils_itoa 0 [7, 7] 0 = Inr (bytes_of ''0'' @ [0], 1)"
  using utils_itoa_decimal [of 2021 4 "[7, 7, 7, 7, 7, 7]" "[7, 7, 7, 7, 7, 7, 7, 7, 7, 7]" "[7, 7]" 0]
  by (simp add: dec_eval)

text \<open>The accumulator as the source computes it and as the spec words it.\<close>

lemma itoa_nr_neg_first:
  assumes "sint n < 0"
  shows "itoa_nr n = word_of_int (- sint n)"
  using assms by (simp add: itoa_nr_def)

lemma itoa_nr_eq_widen_first: "itoa_nr n = itoa_nr_widen_first n"
proof -
  have "(word_of_int (2 ^ 32 - uint n) :: u32) = word_of_int (2 ^ 32) - word_of_int (uint n)"
    by (simp only: of_int_diff)
  also have "(word_of_int (2 ^ 32) :: u32) = 0"
    by simp
  finally have "(word_of_int (2 ^ 32 - uint n) :: u32) = - n"
    by simp
  then show ?thesis
    by (simp add: itoa_nr_def itoa_nr_widen_first_def)
qed

text \<open>
  C7. \<^verbatim>\<open>utils_itoa\<close> handles the most negative 32-bit integer. For every \<open>n\<close> the unsigned
  32-bit accumulator holds the absolute magnitude of \<open>n\<close>; for a negative \<open>n\<close> it is the
  negated signed value converted modulo \<open>2 ^ 32\<close>, as the source writes it, and this is the
  same word as the one obtained by widening to unsigned before the negation, as the spec
  words it. At \<open>-2147483648\<close> the signed negation wraps to \<open>-2147483648\<close> itself, whose
  unsigned reading is the magnitude \<open>2147483648\<close>, and for \<open>s_max \<ge> 10\<close> the call leaves
  \<open>-2147483648\<close> with its terminator in the buffer and returns 11.
\<close>

theorem utils_itoa_int_min:
  assumes "10 \<le> unat s_max" and "12 \<le> length s"
  shows "utils_itoa (- 2147483648) s s_max = Inr (bytes_of ''-2147483648'' @ 0 # drop 12 s, 11)
    \<and> itoa_is_minus (- 2147483648)
    \<and> sint (- 2147483648 :: i32) = - 2147483648
    \<and> sint (- (- 2147483648 :: i32)) = - 2147483648
    \<and> unat (itoa_nr (- 2147483648)) = 2147483648
    \<and> unat (itoa_nr m) = nat \<bar>sint m\<bar>
    \<and> (sint m < 0 \<longrightarrow> itoa_nr m = word_of_int (- sint m))
    \<and> itoa_nr m = itoa_nr_widen_first m"
proof -
  have "utils_itoa (- 2147483648) s s_max = Inr (bytes_of ''-2147483648'' @ 0 # drop 12 s, 11)"
    using utils_itoa_text [of "- 2147483648" "''-2147483648''" 11 s_max s] assms by (simp add: dec_eval)
  moreover have "itoa_is_minus (- 2147483648)" "sint (- 2147483648 :: i32) = - 2147483648"
    "sint (- (- 2147483648 :: i32)) = - 2147483648" "unat (itoa_nr (- 2147483648)) = 2147483648"
    by (simp_all add: itoa_is_minus_def itoa_nr_def)
  moreover have "unat (itoa_nr m) = nat \<bar>sint m\<bar>"
    by (rule unat_itoa_nr)
  moreover have "sint m < 0 \<longrightarrow> itoa_nr m = word_of_int (- sint m)"
    using itoa_nr_neg_first [of m] by blast
  moreover have "itoa_nr m = itoa_nr_widen_first m"
    by (rule itoa_nr_eq_widen_first)
  ultimately show ?thesis
    by blast
qed

theorem utils_itoa_int_min_witness:
  "10 \<le> unat (10 :: u32) \<and> 12 \<le> length [7, 7, 7, 7, 7, 7, 7, 7, 7, 7, 7, 7, 7 :: u8]
   \<and> utils_itoa (- 2147483648) [7, 7, 7, 7, 7, 7, 7, 7, 7, 7, 7, 7, 7] 10
       = Inr (bytes_of ''-2147483648'' @ [0, 7], 11)
   \<and> sint (- 5 :: i32) < 0
   \<and> unat (itoa_nr (- 5)) = 5
   \<and> itoa_nr (- 5) = word_of_int (- sint (- 5 :: i32))
   \<and> itoa_nr_widen_first (- 5) = 5
   \<and> uint (- 5 :: i32) = 4294967291"
  using utils_itoa_int_min [of 10 "[7, 7, 7, 7, 7, 7, 7, 7, 7, 7, 7, 7, 7]" "- 5"]
  by (simp add: itoa_nr_widen_first_def)

text \<open>
  C3, as the code has it. If the digit loop of \<^verbatim>\<open>utils_itoa\<close> stops with the remaining value
  still nonzero, then the buffer holds only the extracted low-order digits, back to
  front, in its first \<open>max 1 s_max\<close> bytes: no sign, no terminator and no reversal, the
  rest of the buffer as it was. The function returns \<open>max 1 s_max\<close>, which is \<open>s_max\<close> for
  every \<open>s_max \<ge> 1\<close>; in particular \<^verbatim>\<open>utils_itoa(12345, s, 3)\<close> returns 3.
\<close>

theorem utils_itoa_truncated:
  assumes trunc: "itoa_truncated n s s_max" and room: "max 1 (unat s_max) \<le> length s"
  shows "utils_itoa n s s_max =
     Inr (take (max 1 (unat s_max)) (rev (bytes_of (dec_digits (nat \<bar>sint n\<bar>))))
            @ drop (max 1 (unat s_max)) s,
          max 1 s_max)
     \<and> max 1 (unat s_max) < length (dec_digits (nat \<bar>sint n\<bar>))
     \<and> (1 \<le> unat s_max \<longrightarrow> max 1 s_max = s_max)"
proof -
  let ?N = "nat \<bar>sint n\<bar>"
  let ?m = "itoa_steps ?N 0 (unat s_max)"
  let ?d = "length (dec_digits ?N)"
  note loop = itoa_loop_cut [OF room, of n]
  have nz: "(of_nat (?N div 10 ^ ?m) :: u32) \<noteq> 0"
    using trunc by (simp add: itoa_truncated_def loop)
  have "\<not> ?d \<le> max 1 (unat s_max)"
  proof
    assume "?d \<le> max 1 (unat s_max)"
    then have "?m = ?d"
      by (simp add: itoa_steps_def)
    then have "?N div 10 ^ ?m = 0"
      using dec_digits_bound [of ?N] by simp
    then show False
      using nz by simp
  qed
  then have lt: "max 1 (unat s_max) < ?d"
    by linarith
  then have m: "?m = max 1 (unat s_max)"
    by (simp add: itoa_steps_def)
  have w: "(of_nat (max 1 (unat s_max)) :: u32) = max 1 s_max"
  proof (cases "unat s_max = 0")
    case True
    then have "s_max = 0"
      by (simp add: unat_eq_0)
    then show ?thesis
      by simp
  next
    case False
    then have "1 \<le> s_max"
      by (simp add: word_le_nat_alt)
    then show ?thesis
      using False by (simp add: max_def)
  qed
  have "utils_itoa n s s_max =
     Inr (take ?m (rev (bytes_of (dec_digits ?N))) @ drop ?m s, of_nat ?m)"
    using nz by (simp add: utils_itoa_def loop)
  then have "utils_itoa n s s_max =
     Inr (take (max 1 (unat s_max)) (rev (bytes_of (dec_digits ?N))) @ drop (max 1 (unat s_max)) s,
          max 1 s_max)"
    by (simp only: m w)
  moreover have "1 \<le> unat s_max \<longrightarrow> max 1 s_max = s_max"
    by (simp add: max_def word_le_nat_alt)
  ultimately show ?thesis
    using lt by simp
qed

theorem utils_itoa_truncated_witness:
  "itoa_truncated 12345 [7, 7, 7, 7, 7, 7] 3 \<and> max 1 (unat (3 :: u32)) \<le> length [7, 7, 7, 7, 7, 7 :: u8]
   \<and> utils_itoa 12345 [7, 7, 7, 7, 7, 7] 3 = Inr (bytes_of ''543'' @ [7, 7, 7], 3)"
proof -
  have t: "itoa_truncated 12345 [7, 7, 7, 7, 7, 7] 3"
    by (simp add: itoa_truncated_def itoa_eval)
  have r: "max 1 (unat (3 :: u32)) \<le> length [7, 7, 7, 7, 7, 7 :: u8]"
    by simp
  show ?thesis
    using t r utils_itoa_truncated [OF t r] by (simp add: dec_eval)
qed


text \<open>
  C3 as stated, with the count equal to \<open>s_max\<close> on every truncated run, fails at
  \<open>s_max = 0\<close>: the \<^verbatim>\<open>do\<close> loop emits one digit before it tests \<^verbatim>\<open>i < s_max\<close>, so
  \<^verbatim>\<open>utils_itoa(12345, s, 0)\<close> stops on the capacity test with \<open>1234\<close> left and returns 1.
\<close>

theorem utils_itoa_zero_capacity_counterexample:
  "itoa_truncated 12345 [7, 7, 7, 7, 7, 7] 0
   \<and> itoa_loop [7, 7, 7, 7, 7, 7] 0 0 (itoa_nr 12345) = Inr ([0x35, 7, 7, 7, 7, 7], 1, 1234)
   \<and> utils_itoa 12345 [7, 7, 7, 7, 7, 7] 0 = Inr ([0x35, 7, 7, 7, 7, 7], 1)
   \<and> (1 :: u32) \<noteq> 0"
  by (simp add: itoa_truncated_def itoa_eval)


text \<open>
  C10. A non-negative \<open>n\<close> with exactly \<open>s_max\<close> decimal digits takes the success path of
  \<^verbatim>\<open>utils_itoa\<close> (value consumed, text terminated and reversed) and the call returns
  \<open>s_max\<close>, the very count a truncated run with the same \<open>s_max\<close> returns.
\<close>

theorem utils_itoa_full_capacity:
  assumes nonneg: "0 \<le> sint n"
    and digits: "length (dec_digits (nat (sint n))) = unat s_max"
    and room: "unat s_max < length s"
  shows "utils_itoa n s s_max = Inr (bytes_of (decimal (sint n)) @ 0 # drop (Suc (unat s_max)) s, s_max)
    \<and> \<not> itoa_truncated n s s_max"
proof -
  have dec: "decimal (sint n) = dec_digits (nat (sint n))"
    using nonneg by (simp add: decimal_def)
  have ab: "nat \<bar>sint n\<bar> = nat (sint n)"
    using nonneg by simp
  have one: "utils_itoa n s s_max = Inr (bytes_of (decimal (sint n)) @ 0 # drop (Suc (unat s_max)) s, s_max)"
    using utils_itoa_done [of n s_max s] digits room by (simp add: dec ab)
  have "itoa_loop s s_max 0 (itoa_nr n) =
     Inr (rev (bytes_of (dec_digits (nat (sint n)))) @ drop (unat s_max) s, s_max, 0)"
    using itoa_loop_done [of "itoa_nr n" s_max s] digits room by (simp add: unat_itoa_nr ab)
  then have "\<not> itoa_truncated n s s_max"
    by (simp add: itoa_truncated_def)
  with one show ?thesis
    by simp
qed

theorem utils_itoa_full_capacity_witness:
  "0 \<le> sint (123 :: i32) \<and> length (dec_digits (nat (sint (123 :: i32)))) = unat (3 :: u32)
   \<and> unat (3 :: u32) < length [7, 7, 7, 7, 7, 7 :: u8]
   \<and> utils_itoa 123 [7, 7, 7, 7, 7, 7] 3 = Inr (bytes_of ''123'' @ [0, 7, 7], 3)
   \<and> \<not> itoa_truncated 123 [7, 7, 7, 7, 7, 7] 3
   \<and> itoa_truncated 12345 [7, 7, 7, 7, 7, 7] 3
   \<and> utils_itoa 12345 [7, 7, 7, 7, 7, 7] 3 = Inr (bytes_of ''543'' @ [7, 7, 7], 3)"
proof -
  have "itoa_truncated 12345 [7, 7, 7, 7, 7, 7] 3
    \<and> utils_itoa 12345 [7, 7, 7, 7, 7, 7] 3 = Inr (bytes_of ''543'' @ [7, 7, 7], 3)"
    by (simp add: itoa_truncated_def itoa_eval bytes_of_def)
  then show ?thesis
    using utils_itoa_full_capacity [of 123 3 "[7, 7, 7, 7, 7, 7]"] by (simp add: dec_eval)
qed

section \<open>Facts about the float formatter\<close>

subsection \<open>The clearing and the copying loop\<close>

lemma u8_succ:
  fixes i :: u8
  assumes "unat i < 20"
  shows "unat (i + 1) = Suc (unat i)"
  using assms by (simp add: unat_word_ariths)

lemma u8_lt_20: "(i :: u8) < 20 \<longleftrightarrow> unat i < 20"
  by (simp add: word_less_nat_alt)

lemma clear_loop_run:
  "unat i \<le> 20 \<Longrightarrow> 20 \<le> length out \<Longrightarrow>
   clear_loop out i = Inr (take (unat i) out @ replicate (20 - unat i) 0 @ drop 20 out)"
proof (induction out i rule: clear_loop.induct)
  case (1 out i)
  show ?case
  proof (cases "i < 20")
    case False
    then have "unat i = 20"
      using "1.prems"(1) by (simp add: u8_lt_20)
    then show ?thesis
      using False by (subst clear_loop.simps) simp
  next
    case True
    then have lt: "unat i < 20"
      by (simp add: u8_lt_20)
    note i1 = u8_succ [OF lt]
    let ?o1 = "out[unat i := 0]"
    have w: "wr out (unat i) 0 = Inr ?o1"
      using lt "1.prems"(2) by (simp add: wr_def)
    have step: "clear_loop out i = clear_loop ?o1 (i + 1)"
      by (subst clear_loop.simps) (simp add: True w)
    have tk: "take (Suc (unat i)) ?o1 = take (unat i) out @ [0]"
      using lt "1.prems"(2) by (simp add: take_Suc_conv_app_nth)
    have rp: "replicate (20 - unat i) (0 :: u8) = 0 # replicate (20 - Suc (unat i)) 0"
      using lt by (simp add: Suc_diff_Suc flip: replicate_Suc)
    from "1.IH" [OF True, of ?o1] show ?thesis
      using lt "1.prems"(2) by (simp add: step i1 tk rp)
  qed
qed

lemma clear_loop_all:
  assumes "20 \<le> length out"
  shows "clear_loop out 0 = Inr (replicate 20 0 @ drop 20 out)"
  using clear_loop_run [of 0 out] assms by simp

lemma copy_loop_run:
  "length tmp = 20 \<Longrightarrow> 20 \<le> length out \<Longrightarrow> unat i \<le> 20 \<Longrightarrow> unat j \<le> unat i \<Longrightarrow>
   copy_loop tmp out i j =
     Inr (take (unat j) out @ filter (\<lambda>c. c \<noteq> 0) (drop (unat i) tmp)
          @ drop (unat j + length (filter (\<lambda>c. c \<noteq> 0) (drop (unat i) tmp))) out)"
proof (induction tmp out i j rule: copy_loop.induct)
  case (1 tmp out i j)
  show ?case
  proof (cases "i < 20")
    case False
    then have "unat i = 20"
      using "1.prems"(3) by (simp add: u8_lt_20)
    then show ?thesis
      using False "1.prems"(1) by (subst copy_loop.simps) simp
  next
    case True
    then have lt: "unat i < 20"
      by (simp add: u8_lt_20)
    note i1 = u8_succ [OF lt]
    have jlt: "unat j < 20"
      using lt "1.prems"(4) by simp
    note j1 = u8_succ [OF jlt]
    have r: "rd tmp (unat i) = Inr (tmp ! unat i)"
      using lt "1.prems"(1) by (simp add: rd_def)
    have dr: "drop (unat i) tmp = tmp ! unat i # drop (Suc (unat i)) tmp"
      using lt "1.prems"(1) by (simp add: Cons_nth_drop_Suc)
    show ?thesis
    proof (cases "tmp ! unat i = 0")
      case z: True
      have step: "copy_loop tmp out i j = copy_loop tmp out (i + 1) j"
        by (subst copy_loop.simps) (simp add: True r z)
      have "0 \<noteq> tmp ! unat i \<Longrightarrow> False"
        using z by simp
      from "1.IH"(2) [OF True, of "tmp ! unat i"] show ?thesis
        using z lt "1.prems" by (simp add: step i1 dr)
    next
      case nz: False
      let ?c = "tmp ! unat i"
      let ?o1 = "out[unat j := ?c]"
      have w: "wr out (unat j) ?c = Inr ?o1"
        using jlt "1.prems"(2) by (simp add: wr_def)
      have step: "copy_loop tmp out i j = copy_loop tmp ?o1 (i + 1) (j + 1)"
        using nz by (subst copy_loop.simps) (simp add: True r w)
      have tk: "take (Suc (unat j)) ?o1 = take (unat j) out @ [?c]"
        using jlt "1.prems"(2) by (simp add: take_Suc_conv_app_nth)
      have ne: "0 \<noteq> ?c"
        using nz by simp
      from "1.IH"(1) [OF True ne, of ?o1] show ?thesis
        using nz lt "1.prems" by (simp add: step i1 j1 dr tk)
    qed
  qed
qed

lemma copy_loop_all:
  assumes "length tmp = 20" "20 \<le> length out"
  shows "copy_loop tmp out 0 0 =
     Inr (filter (\<lambda>c. c \<noteq> 0) tmp @ drop (length (filter (\<lambda>c. c \<noteq> 0) tmp)) out)"
  using copy_loop_run [of tmp out 0 0] assms by simp

subsection \<open>The emission of the digits\<close>

lemma c_div_pos: "0 \<le> a \<Longrightarrow> c_div a 10 = a div 10"
  by (simp add: c_div_def)

lemma c_rem_pos: "0 \<le> a \<Longrightarrow> 0 < b \<Longrightarrow> c_rem a b = a mod b"
  by (simp add: c_rem_def c_div_def minus_mult_div_eq_mod)

lemma units_digit_byte:
  assumes "0 < u"
  shows "(of_int (c_rem u 10) :: u8) + 0x30 = of_char (digit_char (nat u mod 10))"
proof -
  have "int (nat u mod 10) = int (nat u) mod 10"
    by (simp add: zmod_int)
  then have "c_rem u 10 = int (nat u mod 10)"
    using assms by (simp add: c_rem_pos)
  then have "(of_int (c_rem u 10) :: u8) = of_nat (nat u mod 10)"
    by simp
  then show ?thesis
    by (simp add: of_char_digit_char)
qed

lemma push_ok:
  assumes "0 < s" "s \<le> length tmp"
  shows "push tmp s c = Inr (take (s - 1) tmp @ c # drop s tmp, s - 1)"
proof -
  have "tmp[s - 1 := c] = take (s - 1) tmp @ c # drop (Suc (s - 1)) tmp"
    using assms by (intro upd_conv_take_nth_drop) simp
  then show ?thesis
    using assms by (simp add: push_def wr_def)
qed

lemma units_loop_run:
  "0 < u \<Longrightarrow> length (dec_digits (nat u)) \<le> s \<Longrightarrow> s \<le> length tmp \<Longrightarrow>
   units_loop tmp s u =
     Inr (take (s - length (dec_digits (nat u))) tmp @ bytes_of (dec_digits (nat u)) @ drop s tmp,
          s - length (dec_digits (nat u)))"
proof (induction tmp s u rule: units_loop.induct)
  case (1 tmp s u)
  let ?c = "(of_int (c_rem u 10) :: u8) + 0x30"
  let ?t1 = "take (s - 1) tmp @ ?c # drop s tmp"
  have pos: "0 < s"
    using "1.prems"(2) length_dec_digits_pos [of "nat u"] by linarith
  have p: "push tmp s ?c = Inr (?t1, s - 1)"
    using pos "1.prems"(3) by (rule push_ok)
  have cd: "c_div u 10 = u div 10"
    using "1.prems"(1) by (simp add: c_div_pos)
  have step: "units_loop tmp s u = units_loop ?t1 (s - 1) (u div 10)"
    using "1.prems"(1) by (subst units_loop.simps) (simp add: p cd)
  have byte: "?c = of_char (digit_char (nat u mod 10))"
    using "1.prems"(1) by (rule units_digit_byte)
  show ?case
  proof (cases "u < 10")
    case True
    then have "u div 10 = 0"
      using "1.prems"(1) by simp
    then have "units_loop tmp s u = Inr (?t1, s - 1)"
      using step by (simp add: units_loop.simps)
    moreover have "nat u < 10"
      using True by simp
    then have "dec_digits (nat u) = [digit_char (nat u)]"
      by (subst dec_digits.simps) simp
    moreover have "nat u mod 10 = nat u"
      using True by simp
    ultimately show ?thesis
      by (simp add: byte bytes_of_def)
  next
    case False
    let ?d' = "length (dec_digits (nat (u div 10)))"
    have nd: "nat (u div 10) = nat u div 10"
      using "1.prems"(1) by (simp add: nat_div_distrib)
    have "\<not> nat u < 10"
      using False by simp
    then have dd: "dec_digits (nat u) = dec_digits (nat (u div 10)) @ [digit_char (nat u mod 10)]"
      using nd by (subst dec_digits.simps) simp
    then have len: "length (dec_digits (nat u)) = Suc ?d'"
      by simp
    have u1: "0 < u div 10"
      using False by simp
    have a: "?d' \<le> s - 1"
      using "1.prems"(2) len by simp
    have b: "s - 1 \<le> length ?t1"
      using "1.prems"(3) pos by simp
    from "1.IH" [OF "1.prems"(1), of "s - 1" ?t1, unfolded cd, OF u1 a b]
    have ih: "units_loop ?t1 (s - 1) (u div 10) =
       Inr (take (s - 1 - ?d') ?t1 @ bytes_of (dec_digits (nat (u div 10))) @ drop (s - 1) ?t1,
            s - 1 - ?d')" .
    have t: "take (s - 1 - ?d') ?t1 = take (s - Suc ?d') tmp"
      using pos "1.prems"(3) by (simp add: min_def)
    have d: "drop (s - 1) ?t1 = ?c # drop s tmp"
      using pos "1.prems"(3) by simp
    show ?thesis
      unfolding step ih len t d dd by (simp add: byte bytes_of_def)
  qed
qed

lemma u16_digit_byte:
  fixes d :: u16
  shows "(ucast (d mod 10) :: u8) + 0x30 = of_char (digit_char (unat d mod 10))"
proof -
  have "(ucast (d mod 10) :: u8) = of_nat (unat (d mod 10))"
    by simp
  also have "unat (d mod 10) = unat d mod 10"
    by (simp add: unat_mod)
  finally show ?thesis
    by (simp add: of_char_digit_char)
qed

lemma u16_digit_byte2:
  fixes d :: u16
  shows "(ucast ((d div 10) mod 10) :: u8) + 0x30 = of_char (digit_char (unat d div 10 mod 10))"
  using u16_digit_byte [of "d div 10"] by (simp add: unat_div)

lemma push_rep:
  assumes "0 < k"
  shows "push (replicate k 0 @ body) k c = Inr (replicate (k - 1) 0 @ c # body, k - 1)"
  using push_ok [of k "replicate k 0 @ body" c] assms by (simp add: min_def)

lemma units_loop_rep:
  assumes "0 < u" "length (dec_digits (nat u)) \<le> k"
  shows "units_loop (replicate k 0 @ body) k u =
     Inr (replicate (k - length (dec_digits (nat u))) 0 @ bytes_of (dec_digits (nat u)) @ body,
          k - length (dec_digits (nat u)))"
  using units_loop_run [of u k "replicate k 0 @ body"] assms by (simp add: min_def)

lemma units_loop_zero: "\<not> 0 < u \<Longrightarrow> units_loop tmp s u = Inr (tmp, s)"
  by (subst units_loop.simps) simp

lemma tmp_init_rep: "tmp_init = replicate 20 0 @ []"
  by (simp add: tmp_init_def numeral_eq_Suc)

lemma ftc_emit_fixed:
  "ftc_emit neg d u =
     bindE (units_loop (replicate 17 0 @ bytes_of [CHR ''.'', digit_char (unat d div 10 mod 10),
                digit_char (unat d mod 10)]) 17 u) (\<lambda>(t4, s4).
     if neg then push t4 s4 0x2D else Inr (t4, s4))"
proof -
  have "push tmp_init 20 (ucast (d mod 10) + 0x30)
      = Inr (replicate 19 0 @ [of_char (digit_char (unat d mod 10))], 19)"
    unfolding tmp_init_rep by (subst push_rep) (simp_all add: u16_digit_byte)
  moreover have "push (replicate 19 0 @ [of_char (digit_char (unat d mod 10))]) 19
        (ucast ((d div 10) mod 10) + 0x30)
      = Inr (replicate 18 0 @ [of_char (digit_char (unat d div 10 mod 10)),
               of_char (digit_char (unat d mod 10))], 18)"
    by (subst push_rep) (simp_all add: u16_digit_byte2)
  moreover have "push (replicate 18 0 @ [of_char (digit_char (unat d div 10 mod 10)),
               of_char (digit_char (unat d mod 10))]) 18 0x2E
      = Inr (replicate 17 0 @ bytes_of [CHR ''.'', digit_char (unat d div 10 mod 10),
                digit_char (unat d mod 10)], 17)"
    by (subst push_rep) (simp_all add: bytes_of_def)
  ultimately show ?thesis
    by (simp add: ftc_emit_def)
qed

lemma ftc_emit_text:
  assumes "length (ftc_text neg d u) \<le> 20"
  shows "ftc_emit neg d u =
     Inr (replicate (20 - length (ftc_text neg d u)) 0 @ bytes_of (ftc_text neg d u),
          20 - length (ftc_text neg d u))"
proof -
  let ?tail = "[CHR ''.'', digit_char (unat d div 10 mod 10), digit_char (unat d mod 10)]"
  let ?ud = "if 0 < u then dec_digits (nat u) else []"
  have loop: "units_loop (replicate 17 0 @ bytes_of ?tail) 17 u
      = Inr (replicate (17 - length ?ud) 0 @ bytes_of (?ud @ ?tail), 17 - length ?ud)"
  proof (cases "0 < u")
    case True
    have "length (dec_digits (nat u)) \<le> 17"
      using assms True by (simp add: ftc_text_def split: if_splits)
    from units_loop_rep [OF True this] show ?thesis
      using True by (simp add: bytes_of_def)
  next
    case False
    then show ?thesis
      by (simp add: units_loop_zero)
  qed
  show ?thesis
  proof (cases neg)
    case False
    then show ?thesis
      by (simp add: ftc_emit_fixed loop ftc_text_def)
  next
    case True
    have k: "0 < 17 - length ?ud"
      using assms True by (simp add: ftc_text_def split: if_splits)
    have "ftc_emit neg d u
        = push (replicate (17 - length ?ud) 0 @ bytes_of (?ud @ ?tail)) (17 - length ?ud) 0x2D"
      using True by (simp add: ftc_emit_fixed loop)
    also have "\<dots> = Inr (replicate (17 - length ?ud - 1) 0 @ 0x2D # bytes_of (?ud @ ?tail),
        17 - length ?ud - 1)"
      using k by (rule push_rep)
    also have "\<dots> = Inr (replicate (20 - length (CHR ''-'' # ?ud @ ?tail)) 0
          @ bytes_of (CHR ''-'' # ?ud @ ?tail), 20 - length (CHR ''-'' # ?ud @ ?tail))"
      by (simp add: bytes_of_def)
    also have "CHR ''-'' # ?ud @ ?tail = ftc_text neg d u"
      using True by (simp add: ftc_text_def)
    finally show ?thesis .
  qed
qed

subsection \<open>The output as a text\<close>

lemma f32_to_i16_cases:
  "f32_to_i16 x = Inl CastOverflow \<or>
   (\<exists>t. f32_to_i16 x = Inr t \<and> - 32768 \<le> t \<and> t \<le> 32767
       \<and> t = (if x < 0 then - \<lfloor>- x\<rfloor> else \<lfloor>x\<rfloor>))"
  by (simp add: f32_to_i16_def Let_def)

lemma ftc_split_cases:
  "ftc_split val = Inl CastOverflow \<or>
   (\<exists>d u. ftc_split val = Inr (d, u) \<and> - 32768 \<le> u \<and> u \<le> 32767)"
proof -
  have *: "bindE (f32_to_i16 a) (\<lambda>a. bindE (f32_to_i16 b) (\<lambda>u. Inr (of_int (c_rem a 100) :: u16, u)))
        = Inl CastOverflow \<or>
      (\<exists>d u. bindE (f32_to_i16 a) (\<lambda>a. bindE (f32_to_i16 b) (\<lambda>u. Inr (of_int (c_rem a 100) :: u16, u)))
        = Inr (d, u) \<and> - 32768 \<le> u \<and> u \<le> 32767)" for a b
    using f32_to_i16_cases [of a] f32_to_i16_cases [of b] by auto
  show ?thesis
    unfolding ftc_split_def using * by (cases "val < 0") simp_all
qed

lemma ftc_split_units:
  assumes "ftc_split val = Inr (d, u)"
  shows "u \<le> 32767"
  using ftc_split_cases [of val] assms by auto

lemma length_units_digits:
  assumes "u \<le> 32767"
  shows "length (dec_digits (nat u)) \<le> 5"
proof -
  have "nat u < 10 ^ Suc 4"
    using assms by simp
  from length_dec_digits_le [OF this] show ?thesis
    by simp
qed

lemma length_ftc_text:
  assumes "u \<le> 32767"
  shows "length (ftc_text neg d u) \<le> 9" and "3 \<le> length (ftc_text neg d u)"
  using length_units_digits [OF assms] by (simp_all add: ftc_text_def)

lemma digit_char_mem: "k < 10 \<Longrightarrow> digit_char k \<in> set ''0123456789''"
  unfolding digit_char_def by (intro nth_mem) simp

lemma digit_set_nz: "c \<in> set ''0123456789'' \<Longrightarrow> (of_char c :: u8) \<noteq> 0"
  by auto

lemma dec_digits_no_nul: "(0 :: u8) \<notin> of_char ` set (dec_digits n)"
  using dec_digits_chars [of n] digit_set_nz by (metis imageE subsetD)

lemma ftc_text_no_nul: "(0 :: u8) \<notin> set (bytes_of (ftc_text neg d u))"
proof -
  have a: "(of_char (digit_char (unat d div 10 mod 10)) :: u8) \<noteq> 0"
    by (rule digit_set_nz, rule digit_char_mem) simp
  have b: "(of_char (digit_char (unat d mod 10)) :: u8) \<noteq> 0"
    by (rule digit_set_nz, rule digit_char_mem) simp
  have c: "(0 :: u8) \<notin> of_char ` set (dec_digits (nat u))"
    by (rule dec_digits_no_nul)
  have "set (bytes_of (ftc_text neg d u)) \<subseteq>
      {0x2D, 0x2E, of_char (digit_char (unat d div 10 mod 10)), of_char (digit_char (unat d mod 10))}
      \<union> of_char ` set (dec_digits (nat u))"
    by (auto simp: ftc_text_def bytes_of_def)
  then show ?thesis
    using a b c by auto
qed

lemma filter_no_nul:
  assumes "(0 :: u8) \<notin> set xs"
  shows "filter (\<lambda>c. c \<noteq> 0) (replicate k 0 @ xs) = xs"
proof -
  have "filter (\<lambda>c. c \<noteq> 0) xs = xs"
    using assms by (induction xs) auto
  then show ?thesis
    by simp
qed

lemma utils_float_to_char_text:
  assumes out: "20 \<le> length out" and split: "ftc_split val = Inr (d, u)"
  shows "utils_float_to_char val out =
     Inr (bytes_of (ftc_text (val < 0) d u) @ replicate (20 - length (ftc_text (val < 0) d u)) 0
            @ drop 20 out,
          20 - length (ftc_text (val < 0) d u))"
proof -
  let ?txt = "ftc_text (val < 0) d u"
  let ?L = "length ?txt"
  let ?tmp = "replicate (20 - ?L) 0 @ bytes_of ?txt"
  let ?o1 = "replicate 20 0 @ drop 20 out"
  have L: "?L \<le> 9"
    using ftc_split_units [OF split] by (rule length_ftc_text)
  then have L20: "?L \<le> 20"
    by simp
  have emit: "ftc_emit (val < 0) d u = Inr (?tmp, 20 - ?L)"
    using L20 by (rule ftc_emit_text)
  have lt: "length ?tmp = 20"
    using L20 by (simp add: bytes_of_def)
  have lo: "20 \<le> length ?o1"
    by simp
  have f: "filter (\<lambda>c. c \<noteq> 0) ?tmp = bytes_of ?txt"
    using ftc_text_no_nul by (rule filter_no_nul)
  have "copy_loop ?tmp ?o1 0 0 = Inr (bytes_of ?txt @ drop (length (bytes_of ?txt)) ?o1)"
    using copy_loop_all [OF lt lo] by (simp only: f)
  moreover have "drop (length (bytes_of ?txt)) ?o1 = replicate (20 - ?L) 0 @ drop 20 out"
    using L20 by (simp add: bytes_of_def)
  ultimately have copy: "copy_loop ?tmp ?o1 0 0 = Inr (bytes_of ?txt @ replicate (20 - ?L) 0 @ drop 20 out)"
    by simp
  show ?thesis
    by (simp add: utils_float_to_char_def clear_loop_all [OF out] split emit copy)
qed

subsection \<open>The inputs of the examples\<close>

lemmas f32_eval = f32_mul_def f32_round_def ilog2_def round_even_def pow2_def Let_def
  ilog2_up.simps ilog2_down.simps

lemmas split_eval = ftc_split_def f32_to_i16_def c_div_def c_rem_def

lemmas ftc_eval = utils_float_to_char_def ftc_emit_def push_def tmp_init_def
  units_loop.simps clear_loop.simps copy_loop.simps wr_def rd_def

lemmas text_eval = ftc_text_def dec_digits.simps digit_char_def bytes_of_def

lemma split_3_10: "ftc_split (f32_round (31 / 10)) = Inr (10, 3)"
  by (simp add: split_eval f32_eval)

lemma split_3_00: "ftc_split 3 = Inr (0, 3)"
  by (simp add: split_eval f32_eval)

lemma split_m2_5: "ftc_split (- 5 / 2) = Inr (50, 2)"
  by (simp add: split_eval f32_eval)

lemma split_0: "ftc_split 0 = Inr (0, 0)"
  by (simp add: split_eval f32_eval)

lemma split_1_999: "ftc_split (f32_round (1999 / 1000)) = Inr (99, 1)"
  by (simp add: split_eval f32_eval)

lemma f32_3_10: "f32_round (31 / 10) = 6501171 / 2097152"
  by (simp add: f32_eval)

lemma f32_1_999: "f32_round (1999 / 1000) = 16768827 / 8388608"
  by (simp add: f32_eval)

lemma text_3_10: "ftc_text False 10 3 = ''3.10''"
  by (simp add: text_eval)

lemma text_3_00: "ftc_text False 0 3 = ''3.00''"
  by (simp add: text_eval)

lemma text_m2_5: "ftc_text True 50 2 = ''-2.50''"
  by (simp add: text_eval)

lemma text_0: "ftc_text False 0 0 = ''.00''"
  by (simp add: text_eval)

lemma text_1_999: "ftc_text False 99 1 = ''1.99''"
  by (simp add: text_eval)

subsection \<open>Truncation and the copy\<close>


lemma pow2_pos: "0 < pow2 e"
  by (simp add: pow2_def)

lemma round_even_nonneg:
  assumes "0 \<le> x"
  shows "0 \<le> round_even x"
proof -
  have "0 \<le> \<lfloor>x\<rfloor>"
    using assms by simp
  then show ?thesis
    by (simp add: round_even_def Let_def)
qed

lemma f32_round_nonneg:
  assumes "0 \<le> x"
  shows "0 \<le> f32_round x"
proof (cases "x = 0")
  case True
  then show ?thesis
    by (simp add: f32_round_def)
next
  case False
  define q where "q = pow2 (max (ilog2 \<bar>x\<bar>) (- 126) - 23)"
  have q: "0 < q"
    unfolding q_def by (rule pow2_pos)
  then have "0 \<le> x / q"
    using assms by simp
  then have "0 \<le> round_even (x / q)"
    by (rule round_even_nonneg)
  then have "0 \<le> of_int (round_even (x / q)) * q"
    using q by simp
  then show ?thesis
    using False by (simp add: f32_round_def Let_def q_def)
qed

lemma f32_to_i16_nonneg:
  assumes "0 \<le> x" "f32_to_i16 x = Inr t"
  shows "t = \<lfloor>x\<rfloor>" and "0 \<le> t"
proof -
  show "t = \<lfloor>x\<rfloor>"
    using assms by (simp add: f32_to_i16_def Let_def split: if_splits)
  then show "0 \<le> t"
    using assms(1) by simp
qed

lemma ftc_split_trunc:
  assumes "ftc_split val = Inr (d, u)"
  shows "if val < 0
         then u = \<lfloor>f32_mul (- 1) val\<rfloor> \<and> d = of_int (\<lfloor>f32_mul val (- 100)\<rfloor> mod 100)
         else u = \<lfloor>val\<rfloor> \<and> d = of_int (\<lfloor>f32_mul val 100\<rfloor> mod 100)"
proof (cases "val < 0")
  case True
  have p1: "0 \<le> f32_mul val (- 100)"
    unfolding f32_mul_def using True by (intro f32_round_nonneg) simp
  have p2: "0 \<le> f32_mul (- 1) val"
    unfolding f32_mul_def using True by (intro f32_round_nonneg) simp
  obtain a where a: "f32_to_i16 (f32_mul val (- 100)) = Inr a"
    and u: "f32_to_i16 (f32_mul (- 1) val) = Inr u" and d: "d = of_int (c_rem a 100)"
    using assms True f32_to_i16_cases [of "f32_mul val (- 100)"] f32_to_i16_cases [of "f32_mul (- 1) val"]
    by (auto simp: ftc_split_def)
  note fa = f32_to_i16_nonneg [OF p1 a]
  note fu = f32_to_i16_nonneg [OF p2 u]
  have "c_rem a 100 = a mod 100"
    using fa(2) by (simp add: c_rem_pos)
  then show ?thesis
    using True fa(1) fu(1) d by simp
next
  case False
  have p1: "0 \<le> f32_mul val 100"
    unfolding f32_mul_def using False by (intro f32_round_nonneg) simp
  have p2: "0 \<le> val"
    using False by simp
  obtain a where a: "f32_to_i16 (f32_mul val 100) = Inr a"
    and u: "f32_to_i16 val = Inr u" and d: "d = of_int (c_rem a 100)"
    using assms False f32_to_i16_cases [of "f32_mul val 100"] f32_to_i16_cases [of val]
    by (auto simp: ftc_split_def)
  note fa = f32_to_i16_nonneg [OF p1 a]
  note fu = f32_to_i16_nonneg [OF p2 u]
  have "c_rem a 100 = a mod 100"
    using fa(2) by (simp add: c_rem_pos)
  then show ?thesis
    using False fa(1) fu(1) d by simp
qed

lemma unat_u16_small:
  assumes "0 \<le> k" "k < 100"
  shows "unat (word_of_int k :: u16) = nat k"
proof -
  have "uint (word_of_int k :: u16) = k mod 2 ^ 16"
    by (simp add: uint_word_of_int)
  then have "uint (word_of_int k :: u16) = k"
    using assms by simp
  then show ?thesis
    by (simp only: unat_eq_nat_uint)
qed

lemma ftc_split_decimals:
  assumes "ftc_split val = Inr (d, u)"
  shows "unat d < 100"
proof -
  obtain k :: int where d: "d = of_int (k mod 100)"
    using ftc_split_trunc [OF assms] by (cases "val < 0") auto
  have "unat (word_of_int (k mod 100) :: u16) = nat (k mod 100)"
    by (rule unat_u16_small) simp_all
  then show ?thesis
    using d by simp
qed

section \<open>Claims about \<^verbatim>\<open>utils_float_to_char\<close>\<close>

text \<open>
  C2. The claim has the float formatter trim the trailing zero decimals of its output
  (3.10 as \<open>3.1\<close>, 3.00 as \<open>3\<close>, -2.5 as \<open>-2.5\<close>, 0.0 as \<open>0\<close>), which is what the comment
  \<^verbatim>\<open>Remove trailing zeros\<close> above the final loop announces. The code does not do it: that
  loop skips null bytes only. For every value whose conversions are defined the output
  is the scratch text, moved to the front of the zero-filled buffer, and this text always
  ends in the point and the two decimal digits of \<open>decimals\<close>. So 3.10 leaves \<open>3.10\<close>,
  3.00 leaves \<open>3.00\<close>, -2.5 leaves \<open>-2.50\<close> and 0.0 leaves \<open>.00\<close>.
\<close>

theorem utils_float_to_char_no_trim:
  assumes "20 \<le> length out"
  shows "(ftc_split val = Inr (d, u) \<longrightarrow>
       ftc_emit (val < 0) d u
         = Inr (replicate (20 - length (ftc_text (val < 0) d u)) 0 @ bytes_of (ftc_text (val < 0) d u),
                20 - length (ftc_text (val < 0) d u))
       \<and> utils_float_to_char val out
         = Inr (bytes_of (ftc_text (val < 0) d u)
                  @ replicate (20 - length (ftc_text (val < 0) d u)) 0 @ drop 20 out,
                20 - length (ftc_text (val < 0) d u))
       \<and> (\<exists>pre a b. ftc_text (val < 0) d u = pre @ [CHR ''.'', digit_char a, digit_char b]
             \<and> a < 10 \<and> b < 10 \<and> unat d = 10 * a + b))
    \<and> utils_float_to_char (f32_round (31 / 10)) out
           = Inr (bytes_of ''3.10'' @ replicate 16 0 @ drop 20 out, 16)
    \<and> utils_float_to_char 3 out = Inr (bytes_of ''3.00'' @ replicate 16 0 @ drop 20 out, 16)
    \<and> utils_float_to_char (- 5 / 2) out = Inr (bytes_of ''-2.50'' @ replicate 15 0 @ drop 20 out, 15)
    \<and> utils_float_to_char 0 out = Inr (bytes_of ''.00'' @ replicate 17 0 @ drop 20 out, 17)
    \<and> f32_round 3 = 3 \<and> f32_round (- 5 / 2) = - 5 / 2 \<and> f32_round 0 = 0"
proof -
  have gen: "ftc_emit (val < 0) d u
         = Inr (replicate (20 - length (ftc_text (val < 0) d u)) 0 @ bytes_of (ftc_text (val < 0) d u),
                20 - length (ftc_text (val < 0) d u))
       \<and> utils_float_to_char val out
         = Inr (bytes_of (ftc_text (val < 0) d u)
                  @ replicate (20 - length (ftc_text (val < 0) d u)) 0 @ drop 20 out,
                20 - length (ftc_text (val < 0) d u))
       \<and> (\<exists>pre a b. ftc_text (val < 0) d u = pre @ [CHR ''.'', digit_char a, digit_char b]
             \<and> a < 10 \<and> b < 10 \<and> unat d = 10 * a + b)"
    if split: "ftc_split val = Inr (d, u)"
  proof -
    have "length (ftc_text (val < 0) d u) \<le> 20"
      using length_ftc_text(1) [OF ftc_split_units [OF split], of "val < 0" d] by simp
    then have emit: "ftc_emit (val < 0) d u
         = Inr (replicate (20 - length (ftc_text (val < 0) d u)) 0 @ bytes_of (ftc_text (val < 0) d u),
                20 - length (ftc_text (val < 0) d u))"
      by (rule ftc_emit_text)
    note run = utils_float_to_char_text [OF assms split]
    have lt: "unat d < 100"
      using split by (rule ftc_split_decimals)
    let ?a = "unat d div 10 mod 10" and ?b = "unat d mod 10"
    have "unat d div 10 < 10"
      using lt by simp
    then have "unat d = 10 * ?a + ?b"
      by simp
    moreover have "?a < 10" "?b < 10"
      by simp_all
    moreover have "ftc_text (val < 0) d u
        = ((if val < 0 then [CHR ''-''] else []) @ (if 0 < u then dec_digits (nat u) else []))
          @ [CHR ''.'', digit_char ?a, digit_char ?b]"
      by (simp add: ftc_text_def)
    ultimately have "\<exists>pre a b. ftc_text (val < 0) d u = pre @ [CHR ''.'', digit_char a, digit_char b]
        \<and> a < 10 \<and> b < 10 \<and> unat d = 10 * a + b"
      by blast
    with emit run show ?thesis
      by blast
  qed
  have a: "f32_round (31 / 10) < 0 \<longleftrightarrow> False"
    by (simp add: f32_3_10)
  have e1: "utils_float_to_char (f32_round (31 / 10)) out
      = Inr (bytes_of ''3.10'' @ replicate 16 0 @ drop 20 out, 16)"
    using utils_float_to_char_text [OF assms split_3_10] by (simp only: a text_3_10) simp
  have e2: "utils_float_to_char 3 out = Inr (bytes_of ''3.00'' @ replicate 16 0 @ drop 20 out, 16)"
    using utils_float_to_char_text [OF assms split_3_00] by (simp add: text_3_00)
  have e3: "utils_float_to_char (- 5 / 2) out
      = Inr (bytes_of ''-2.50'' @ replicate 15 0 @ drop 20 out, 15)"
    using utils_float_to_char_text [OF assms split_m2_5] by (simp add: text_m2_5)
  have e4: "utils_float_to_char 0 out = Inr (bytes_of ''.00'' @ replicate 17 0 @ drop 20 out, 17)"
    using utils_float_to_char_text [OF assms split_0] by (simp add: text_0)
  have r: "f32_round 3 = 3" "f32_round (- 5 / 2) = - 5 / 2" "f32_round 0 = 0"
    by (simp_all add: f32_eval)
  show ?thesis
    using gen e1 e2 e3 e4 r by blast
qed

theorem utils_float_to_char_no_trim_witness:
  "20 \<le> length [9, 8, 7, 6, 5, 4, 3, 2, 1, 9, 8, 7, 6, 5, 4, 3, 2, 1, 9, 8, 7 :: u8]
   \<and> ftc_split (41 / 4) = Inr (25, 10)
   \<and> utils_float_to_char (41 / 4) [9, 8, 7, 6, 5, 4, 3, 2, 1, 9, 8, 7, 6, 5, 4, 3, 2, 1, 9, 8, 7]
       = Inr (bytes_of ''10.25'' @ [0, 0, 0, 0, 0, 0, 0, 0, 0, 0, 0, 0, 0, 0, 0, 7], 15)
   \<and> utils_float_to_char 3 [9, 8, 7, 6, 5, 4, 3, 2, 1, 9, 8, 7, 6, 5, 4, 3, 2, 1, 9, 8, 7]
       = Inr (bytes_of ''3.00'' @ [0, 0, 0, 0, 0, 0, 0, 0, 0, 0, 0, 0, 0, 0, 0, 0, 7], 16)"
proof -
  have s: "ftc_split (41 / 4) = Inr (25, 10)"
    by (simp add: split_eval f32_eval)
  have t: "ftc_text False 25 10 = ''10.25''"
    by (simp add: text_eval)
  show ?thesis
    using s utils_float_to_char_no_trim [of "[9, 8, 7, 6, 5, 4, 3, 2, 1, 9, 8, 7, 6, 5, 4, 3, 2, 1, 9, 8, 7]" "41 / 4" 25 10]
    by (simp add: t numeral_eq_Suc)
qed




text \<open>
  C6. The float formatter truncates the fraction, it does not round it: the two decimal
  digits are the integer part of the single-precision product by 100 (by -100 for a
  negative value), taken modulo 100, and the units are the integer part of the magnitude.
  \<^verbatim>\<open>utils_float_to_char\<close> applied to 1.999 leaves \<open>1.99\<close> in the output buffer, although the
  product, about 199.9, lies above 199.5.
\<close>

theorem utils_float_to_char_truncates:
  assumes "20 \<le> length out"
  shows "utils_float_to_char (f32_round (1999 / 1000)) out
           = Inr (bytes_of ''1.99'' @ replicate 16 0 @ drop 20 out, 16)
    \<and> ftc_split (f32_round (1999 / 1000)) = Inr (99, 1)
    \<and> 199 + 1 / 2 < f32_mul (f32_round (1999 / 1000)) 100
    \<and> (ftc_split val = Inr (d, u) \<longrightarrow>
         (if val < 0
          then u = \<lfloor>f32_mul (- 1) val\<rfloor> \<and> d = of_int (\<lfloor>f32_mul val (- 100)\<rfloor> mod 100)
          else u = \<lfloor>val\<rfloor> \<and> d = of_int (\<lfloor>f32_mul val 100\<rfloor> mod 100)))"
proof -
  have a: "f32_round (1999 / 1000) < 0 \<longleftrightarrow> False"
    by (simp add: f32_1_999)
  have "utils_float_to_char (f32_round (1999 / 1000)) out
      = Inr (bytes_of ''1.99'' @ replicate 16 0 @ drop 20 out, 16)"
    using utils_float_to_char_text [OF assms split_1_999] by (simp only: a text_1_999) simp
  moreover have "199 + 1 / 2 < f32_mul (f32_round (1999 / 1000)) 100"
    by (simp add: f32_eval)
  moreover have "ftc_split val = Inr (d, u) \<longrightarrow>
         (if val < 0
          then u = \<lfloor>f32_mul (- 1) val\<rfloor> \<and> d = of_int (\<lfloor>f32_mul val (- 100)\<rfloor> mod 100)
          else u = \<lfloor>val\<rfloor> \<and> d = of_int (\<lfloor>f32_mul val 100\<rfloor> mod 100))"
    using ftc_split_trunc [of val d u] by blast
  ultimately show ?thesis
    using split_1_999 by blast
qed

theorem utils_float_to_char_truncates_witness:
  "20 \<le> length [9, 8, 7, 6, 5, 4, 3, 2, 1, 9, 8, 7, 6, 5, 4, 3, 2, 1, 9, 8 :: u8]
   \<and> utils_float_to_char (f32_round (1999 / 1000)) [9, 8, 7, 6, 5, 4, 3, 2, 1, 9, 8, 7, 6, 5, 4, 3, 2, 1, 9, 8]
       = Inr (bytes_of ''1.99'' @ [0, 0, 0, 0, 0, 0, 0, 0, 0, 0, 0, 0, 0, 0, 0, 0], 16)
   \<and> ftc_split (7 / 4) = Inr (75, 1)
   \<and> ftc_split (- 7 / 4) = Inr (75, 1)"
proof -
  have a: "20 \<le> length [9, 8, 7, 6, 5, 4, 3, 2, 1, 9, 8, 7, 6, 5, 4, 3, 2, 1, 9, 8 :: u8]"
    by simp
  have b: "ftc_split (7 / 4) = Inr (75, 1)" "ftc_split (- 7 / 4) = Inr (75, 1)"
    by (simp_all add: split_eval f32_eval)
  show ?thesis
    using a b utils_float_to_char_truncates [OF a, of "7 / 4" 75 1]
      utils_float_to_char_truncates [OF a, of "- 7 / 4" 75 1]
    by (simp add: numeral_eq_Suc)
qed

text \<open>
  C9. After \<^verbatim>\<open>utils_float_to_char(val, out)\<close> returns, the first 20 bytes of the output
  buffer are a text without null byte followed by zero padding: some \<open>j \<le> 20\<close> non-null
  bytes at the indices below \<open>j\<close> and zero bytes from \<open>j\<close> to 19. On a buffer of at least
  20 bytes the call returns for every value but those on which a conversion to
  \<^verbatim>\<open>int16_t\<close> is undefined.
\<close>

theorem utils_float_to_char_text_run:
  assumes out: "20 \<le> length out"
  shows "utils_float_to_char val out = Inl CastOverflow
    \<or> (\<exists>out' p j. utils_float_to_char val out = Inr (out', p) \<and> length out' = length out
          \<and> j \<le> 20 \<and> j = 20 - p
          \<and> (\<forall>k<j. out' ! k \<noteq> 0) \<and> (\<forall>k. j \<le> k \<and> k < 20 \<longrightarrow> out' ! k = 0))"
proof -
  consider "ftc_split val = Inl CastOverflow"
    | d u where "ftc_split val = Inr (d, u)"
    using ftc_split_cases [of val] by blast
  then show ?thesis
  proof cases
    case 1
    then have "utils_float_to_char val out = Inl CastOverflow"
      by (simp add: utils_float_to_char_def clear_loop_all [OF out])
    then show ?thesis
      by simp
  next
    case 2
    let ?txt = "bytes_of (ftc_text (val < 0) d u)"
    let ?L = "length (ftc_text (val < 0) d u)"
    let ?o = "?txt @ replicate (20 - ?L) 0 @ drop 20 out"
    have L20: "?L \<le> 20"
      using length_ftc_text(1) [OF ftc_split_units [OF 2], of "val < 0" d] by simp
    have lt: "length ?txt = ?L"
      by (simp add: bytes_of_def)
    have run: "utils_float_to_char val out = Inr (?o, 20 - ?L)"
      using out 2 by (rule utils_float_to_char_text)
    have len: "length ?o = length out"
      using out L20 lt by simp
    have nz: "?o ! k \<noteq> 0" if "k < ?L" for k
    proof -
      have "?o ! k = ?txt ! k"
        using that lt by (simp add: nth_append)
      moreover have "?txt ! k \<in> set ?txt"
        using that lt by (intro nth_mem) simp
      ultimately show ?thesis
        using ftc_text_no_nul [of "val < 0" d u] by metis
    qed
    have z: "?o ! k = 0" if "?L \<le> k" "k < 20" for k
    proof -
      have "k - ?L < 20 - ?L"
        using that by simp
      then show ?thesis
        using that lt by (simp add: nth_append)
    qed
    have "20 - (20 - ?L) = ?L"
      using L20 by simp
    with run len L20 nz z show ?thesis
      by (intro disjI2 exI [of _ ?o] exI [of _ "20 - ?L"] exI [of _ ?L]) simp
  qed
qed

theorem utils_float_to_char_text_run_witness:
  "20 \<le> length [9, 8, 7, 6, 5, 4, 3, 2, 1, 9, 8, 7, 6, 5, 4, 3, 2, 1, 9, 8 :: u8]
   \<and> utils_float_to_char (- 5 / 2) [9, 8, 7, 6, 5, 4, 3, 2, 1, 9, 8, 7, 6, 5, 4, 3, 2, 1, 9, 8]
        = Inr ([0x2D, 0x32, 0x2E, 0x35, 0x30, 0, 0, 0, 0, 0, 0, 0, 0, 0, 0, 0, 0, 0, 0, 0], 15)
   \<and> (\<exists>out' p j. utils_float_to_char (- 5 / 2) [9, 8, 7, 6, 5, 4, 3, 2, 1, 9, 8, 7, 6, 5, 4, 3, 2, 1, 9, 8]
          = Inr (out', p) \<and> j = 20 - p
          \<and> (\<forall>k<j. out' ! k \<noteq> 0) \<and> (\<forall>k. j \<le> k \<and> k < 20 \<longrightarrow> out' ! k = 0))"
proof -
  have a: "20 \<le> length [9, 8, 7, 6, 5, 4, 3, 2, 1, 9, 8, 7, 6, 5, 4, 3, 2, 1, 9, 8 :: u8]"
    by simp
  have e: "utils_float_to_char (- 5 / 2) [9, 8, 7, 6, 5, 4, 3, 2, 1, 9, 8, 7, 6, 5, 4, 3, 2, 1, 9, 8]
        = Inr ([0x2D, 0x32, 0x2E, 0x35, 0x30, 0, 0, 0, 0, 0, 0, 0, 0, 0, 0, 0, 0, 0, 0, 0], 15)"
    by (simp add: ftc_eval split_eval f32_eval)
  from utils_float_to_char_text_run [OF a, of "- 5 / 2"] show ?thesis
    unfolding e using a by blast
qed

end
